theory Spec2Isabelle
  imports Main
begin

section \<open>The \<open>run\<close> command of npm-utils: wildcard resolver and execution engine\<close>

text \<open>
  A shallow embedding of \<open>src/main/run.ts\<close> and \<open>src/main/colors.ts\<close>. Script names,
  patterns and output chunks are \<open>string\<close>s, lists of 8-bit characters. What the program
  gets from Node.js (the parsed manifest, the environment, the events of the child processes)
  is an input of the model; what it does to the outside (spawning a child, writing to a
  stream, printing to the console) is appended to a log.
\<close>

subsection \<open>Characters and numbers as text\<close>

definition backslash :: char where
  "backslash = CHR 0x5C"

definition line_feed :: char where
  "line_feed = CHR 0x0A"

definition carriage_return :: char where
  "carriage_return = CHR 0x0D"

definition digit_char :: "nat \<Rightarrow> char" where
  "digit_char d = char_of (48 + d)"

text \<open>\<open>String(n)\<close> and the \<open>${n}\<close> of a template literal, for an integer \<open>n\<close>: decimal digits.\<close>

fun string_of_nat :: "nat \<Rightarrow> string" where
  "string_of_nat n =
     (if n < 10 then [digit_char n] else string_of_nat (n div 10) @ [digit_char (n mod 10)])"

declare string_of_nat.simps [simp del]

definition string_of_int :: "int \<Rightarrow> string" where
  "string_of_int i = (if i < 0 then CHR ''-'' # string_of_nat (nat (- i)) else string_of_nat (nat i))"

subsection \<open>The regular expressions \<open>commandToRegExp\<close> builds\<close>

text \<open>
  \<open>command.replace(/[.+?^${}()|[\]\\]/g, '\\$&')\<close>: each of the thirteen characters of the
  class gets a backslash in front.
\<close>

definition regexp_special :: "char \<Rightarrow> bool" where
  "regexp_special c \<longleftrightarrow> c \<in> set ''.+?^${}()|[]'' \<or> c = backslash"

definition escapeSpecials :: "string \<Rightarrow> string" where
  "escapeSpecials command = concat (map (\<lambda>c. if regexp_special c then [backslash, c] else [c]) command)"

definition is_star :: "char \<Rightarrow> bool" where
  "is_star c \<longleftrightarrow> c = CHR ''*''"

text \<open>
  \<open>.replace(/\*+/g, (a) => a.length === 1 ? "[^:]+" : ".*")\<close>: every maximal run of
  asterisks is replaced, a run of length one by \<open>[^:]+\<close>, a longer run by \<open>.*\<close>.
\<close>

function replaceStars :: "string \<Rightarrow> string" where
  "replaceStars [] = []"
| "replaceStars (c # cs) =
     (if is_star c
      then (if length (c # takeWhile is_star cs) = 1 then ''[^:]+'' else ''.*'')
           @ replaceStars (dropWhile is_star cs)
      else c # replaceStars cs)"
  by pat_completeness auto
termination
  by (relation "measure length") (auto simp: less_Suc_eq_le length_dropWhile_le)

definition regexp_source :: "string \<Rightarrow> string" where
  "regexp_source command = ''^'' @ replaceStars (escapeSpecials command) @ ''$''"

text \<open>
  The fragment of JavaScript's regular expressions these sources lie in: a pattern anchored
  with \<open>^\<close> and \<open>$\<close>, whose body is a sequence of literal characters (an escaped special
  character is that character), of \<open>[^:]+\<close> (one or more characters other than a colon) and
  of \<open>.*\<close> (any number of characters other than line terminators; no \<open>s\<close> flag is given).
  Of the four line terminators of JavaScript, line feed and carriage return are 8-bit
  characters; U+2028 and U+2029 are not and stay outside the model.
\<close>

datatype atom = Lit char | NotColonPlus | DotStar

type_synonym regexp = "atom list"

definition line_terminator :: "char \<Rightarrow> bool" where
  "line_terminator c \<longleftrightarrow> c = line_feed \<or> c = carriage_return"

text \<open>
  \<open>new RegExp(source)\<close> on that fragment. \<open>None\<close> stands for a source outside the
  fragment; \<open>commandToRegExp\<close> never produces one (lemma \<open>commandToRegExp_atoms\<close>).
\<close>

fun regexp_body :: "string \<Rightarrow> regexp option" where
  "regexp_body [] = None"
| "regexp_body (c # cs) =
     (if c = CHR ''$'' then (if cs = [] then Some [] else None)
      else if c = backslash then
        (case cs of
           [] \<Rightarrow> None
         | d # ds \<Rightarrow> if regexp_special d then map_option ((#) (Lit d)) (regexp_body ds) else None)
      else if c = CHR ''['' then
        (if take 4 cs = ''^:]+'' then map_option ((#) NotColonPlus) (regexp_body (drop 4 cs))
         else None)
      else if c = CHR ''.'' then
        (case cs of
           [] \<Rightarrow> None
         | d # ds \<Rightarrow> if is_star d then map_option ((#) DotStar) (regexp_body ds) else None)
      else if regexp_special c \<or> is_star c then None
      else map_option ((#) (Lit c)) (regexp_body cs))"

definition RegExp :: "string \<Rightarrow> regexp option" where
  "RegExp source = (case source of [] \<Rightarrow> None | c # cs \<Rightarrow> if c = CHR ''^'' then regexp_body cs else None)"

text \<open>\<open>name.match(regexp)\<close> is not null: the whole name matches the anchored pattern.\<close>

fun matches :: "regexp \<Rightarrow> string \<Rightarrow> bool" where
  "matches [] s \<longleftrightarrow> s = []"
| "matches (Lit c # r) [] \<longleftrightarrow> False"
| "matches (Lit c # r) (x # xs) \<longleftrightarrow> x = c \<and> matches r xs"
| "matches (NotColonPlus # r) [] \<longleftrightarrow> False"
| "matches (NotColonPlus # r) (x # xs) \<longleftrightarrow>
     x \<noteq> CHR '':'' \<and> (matches r xs \<or> matches (NotColonPlus # r) xs)"
| "matches (DotStar # r) [] \<longleftrightarrow> matches r []"
| "matches (DotStar # r) (x # xs) \<longleftrightarrow>
     matches r (x # xs) \<or> (\<not> line_terminator x \<and> matches (DotStar # r) xs)"

definition commandToRegExp :: "string \<Rightarrow> regexp option" where
  "commandToRegExp command = RegExp (regexp_source command)"

text \<open>
  The atoms of a pattern, read off the pattern itself: a lone asterisk is \<open>[^:]+\<close>, a longer
  run of asterisks is \<open>.*\<close>, any other character stands for itself. This is what
  \<open>commandToRegExp\<close> computes by way of the source text (lemma \<open>commandToRegExp_atoms\<close>).
\<close>

function pattern_atoms :: "string \<Rightarrow> regexp" where
  "pattern_atoms [] = []"
| "pattern_atoms (c # cs) =
     (if is_star c
      then (if takeWhile is_star cs = [] then NotColonPlus else DotStar)
           # pattern_atoms (dropWhile is_star cs)
      else Lit c # pattern_atoms cs)"
  by pat_completeness auto
termination
  by (relation "measure length") (auto simp: less_Suc_eq_le length_dropWhile_le)

subsection \<open>Errors\<close>

text \<open>
  A JavaScript \<open>Error\<close> with its message, and the \<open>AggregateError\<close> of the parallel branch
  with the errors it wraps.
\<close>

datatype error = Error string | AggregateError "error list" string

fun message :: "error \<Rightarrow> string" where
  "message (Error m) = m"
| "message (AggregateError es m) = m"

subsection \<open>The wildcard resolver\<close>

text \<open>
  \<open>Object.keys(packageJSON.scripts)\<close>. The argument lists the script names in the order the
  manifest declares them. JavaScript enumerates the keys that are array indices (canonical
  decimal numerals below \<open>2^32 - 1\<close>) first, in ascending numeric order, and the other keys
  after them in declaration order.
\<close>

definition is_digit :: "char \<Rightarrow> bool" where
  "is_digit c \<longleftrightarrow> (48::int) \<le> of_char c \<and> (of_char c :: int) \<le> 57"

definition index_value :: "string \<Rightarrow> int" where
  "index_value s = foldl (\<lambda>n c. 10 * n + (of_char c - 48)) 0 s"

definition array_index :: "string \<Rightarrow> bool" where
  "array_index s \<longleftrightarrow>
     s \<noteq> [] \<and> list_all is_digit s \<and> (s = ''0'' \<or> hd s \<noteq> CHR ''0'') \<and> index_value s < 2 ^ 32 - 1"

definition Object_keys :: "string list \<Rightarrow> string list" where
  "Object_keys names =
     sort_key index_value (filter array_index names) @ filter (\<lambda>n. \<not> array_index n) names"

text \<open>
  The callback of \<open>commands.flatMap\<close> in \<open>resolveCommands\<close>: a command with an asterisk is
  replaced by the existing commands its regular expression matches, any other command is kept.
\<close>

definition resolveCommand :: "string list \<Rightarrow> string \<Rightarrow> error + string list" where
  "resolveCommand existingCommands command =
     (if CHR ''*'' \<in> set command then
        (case commandToRegExp command of
           None \<Rightarrow> Inl (Error ''Invalid regular expression'')
         | Some regexp \<Rightarrow> Inr (filter (matches regexp) existingCommands))
      else Inr [command])"

fun flatMap :: "('a \<Rightarrow> error + 'b list) \<Rightarrow> 'a list \<Rightarrow> error + 'b list" where
  "flatMap f [] = Inr []"
| "flatMap f (x # xs) =
     (case f x of
        Inl e \<Rightarrow> Inl e
      | Inr ys \<Rightarrow> (case flatMap f xs of Inl e \<Rightarrow> Inl e | Inr zs \<Rightarrow> Inr (ys @ zs)))"

text \<open>
  \<open>resolveCommands\<close>. Its first argument is what locating, reading and parsing the nearest
  \<open>package.json\<close> gives: the error thrown there, or the script names in declaration order.
\<close>

definition resolveCommands :: "error + string list \<Rightarrow> string list \<Rightarrow> error + string list" where
  "resolveCommands packageJSON commands =
     (case packageJSON of
        Inl e \<Rightarrow> Inl e
      | Inr scripts \<Rightarrow> flatMap (resolveCommand (Object_keys scripts)) commands)"

subsection \<open>The color level (\<open>colors.ts\<close>)\<close>

text \<open>
  What the program reads from its Node.js process: the environment variables
  (\<open>process.env\<close>), the color depths of the two output streams (\<open>getColorDepth?.()\<close>,
  \<open>None\<close> where the stream has no such method), the outcome of locating, reading and
  parsing \<open>package.json\<close>, and the help and version texts, which are built from the
  package's own \<open>package.json\<close>.
\<close>

record host =
  env :: "(string \<times> string) list"
  stdoutColorDepth :: "int option"
  stderrColorDepth :: "int option"
  packageJSON :: "error + string list"
  help_text :: string
  version_text :: string

definition getColorLevel :: "host \<Rightarrow> int" where
  "getColorLevel h =
     (let depth = min (case stdoutColorDepth h of None \<Rightarrow> 1 | Some d \<Rightarrow> d)
                      (case stderrColorDepth h of None \<Rightarrow> 1 | Some d \<Rightarrow> d)
      in if depth = 4 then 1 else if depth = 8 then 2 else if depth = 24 then 3 else 0)"

subsection \<open>The state of the engine and what it does to the outside\<close>

datatype stream = Stdout | Stderr

datatype stdio = Inherit | Pipe

text \<open>The arguments of one \<open>spawn\<close> call.\<close>

record spawn_call =
  spawn_file :: string
  spawn_args :: "string list"
  spawn_stdio :: "stdio list"
  spawn_env :: "(string \<times> string) list"

text \<open>
  The events of the child processes that the listeners of \<open>runCommand\<close> are registered for.
  A child is named by its number, children being numbered in the order \<open>spawn\<close> is called.
  \<open>Data i s chunk\<close> is a \<open>data\<close> event of the \<open>stdout\<close> or \<open>stderr\<close> pipe of child \<open>i\<close>,
  \<open>Close i code\<close> its \<open>close\<close> event (the code is \<open>null\<close> after a signal), \<open>Failed i m\<close> its
  \<open>error\<close> event, with the message of the error.
\<close>

datatype event = Data nat stream string | Close nat "int option" | Failed nat string

text \<open>
  The log, in the order things happen: a \<open>spawn\<close> call; an event delivered to a listener;
  a \<open>write\<close> call on \<open>process.stdout\<close> or \<open>process.stderr\<close>, with the command on whose
  behalf \<open>write\<close> or \<open>flush\<close> makes it; a line printed with \<open>console.log\<close> (\<open>Stdout\<close>) or
  \<open>console.error\<close> (\<open>Stderr\<close>).
\<close>

datatype io = Spawn spawn_call | Received event | Write string stream string | Console stream string

datatype promise = Pending | Resolved | Rejected error

text \<open>
  One call of \<open>runCommand\<close>: the \<open>command\<close> and \<open>parallel\<close> its listeners close over, the
  promise it returns, and whether \<open>run\<close> has attached \<open>promise.catch(error => errors.push(error))\<close>.
\<close>

record child =
  child_command :: string
  child_parallel :: bool
  collect :: bool
  promise :: promise

text \<open>
  \<open>runningCommands\<close> is a \<open>Set\<close> and \<open>buffers\<close> a \<open>Map\<close>; both keep insertion order, so both are
  lists here. \<open>errors\<close> is the array of the parallel branch of \<open>run\<close>.
\<close>

record state =
  runningCommands :: "string list"
  buffers :: "(string \<times> (stream \<times> string) list) list"
  children :: "child list"
  errors :: "error list"
  trace :: "io list"

definition init :: state where
  "init = \<lparr>runningCommands = [], buffers = [], children = [], errors = [], trace = []\<rparr>"

definition emit :: "io \<Rightarrow> state \<Rightarrow> state" where
  "emit x st = st\<lparr>trace := trace st @ [x]\<rparr>"

subsection \<open>The output interleaving buffer\<close>

text \<open>\<open>write_chunk\<close> is the function \<open>write\<close> of the source.\<close>

definition getPrimaryCommand :: "state \<Rightarrow> string option" where
  "getPrimaryCommand st = (case runningCommands st of [] \<Rightarrow> None | command # _ \<Rightarrow> Some command)"

definition write_chunk :: "stream \<Rightarrow> string \<Rightarrow> string \<Rightarrow> state \<Rightarrow> state" where
  "write_chunk stream text command st =
     (if getPrimaryCommand st = Some command then emit (Write command stream text) st
      else st\<lparr>buffers :=
        (case map_of (buffers st) command of
           None \<Rightarrow> buffers st @ [(command, [(stream, text)])]
         | Some buffer \<Rightarrow>
             map (\<lambda>(k, b). if k = command then (k, b @ [(stream, text)]) else (k, b)) (buffers st))\<rparr>)"

definition flush :: "string option \<Rightarrow> state \<Rightarrow> state" where
  "flush command st =
     (case command of
        None \<Rightarrow> st
      | Some c \<Rightarrow>
          (case map_of (buffers st) c of
             None \<Rightarrow> st
           | Some buffer \<Rightarrow>
               st\<lparr>trace := trace st @ map (\<lambda>(stream, text). Write c stream text) buffer,
                  buffers := filter (\<lambda>(k, b). k \<noteq> c) (buffers st)\<rparr>))"

definition flushAll :: "state \<Rightarrow> state" where
  "flushAll st = fold (\<lambda>command. flush (Some command)) (map fst (buffers st)) st"

subsection \<open>\<open>runCommand\<close> and its listeners\<close>

record options =
  parallel :: bool
  silent :: bool

text \<open>\<open>env.FORCE_COLOR ??= String(getColorLevel())\<close> on the copy of \<open>process.env\<close>.\<close>

definition force_color :: "host \<Rightarrow> (string \<times> string) list" where
  "force_color h =
     (case map_of (env h) ''FORCE_COLOR'' of
        None \<Rightarrow> env h @ [(''FORCE_COLOR'', string_of_int (getColorLevel h))]
      | Some v \<Rightarrow> env h)"

text \<open>
  The synchronous part of \<open>runCommand\<close>: the command is added to \<open>runningCommands\<close>, the
  child is spawned, the listeners are registered. The result is the new state and the
  number of the child, which stands for the promise returned.
\<close>

definition runCommand :: "string \<Rightarrow> options \<Rightarrow> host \<Rightarrow> state \<Rightarrow> state \<times> nat" where
  "runCommand command opts h st =
     (let npmOptions = (if silent opts then [''-s''] else []);
          st1 = st\<lparr>runningCommands :=
                  (if command \<in> set (runningCommands st) then runningCommands st
                   else runningCommands st @ [command])\<rparr>;
          env1 = (if parallel opts then force_color h else env h);
          st2 = emit (Spawn \<lparr>spawn_file = ''npm'', spawn_args = [''run''] @ npmOptions @ [command],
                    spawn_stdio = [Inherit, if parallel opts then Pipe else Inherit,
                             if parallel opts then Pipe else Inherit],
                    spawn_env = env1\<rparr>) st1
      in (st2\<lparr>children := children st2 @
            [\<lparr>child_command = command, child_parallel = parallel opts, collect = False,
              promise = Pending\<rparr>]\<rparr>,
          length (children st)))"

text \<open>\<open>resolve()\<close> and \<open>reject(error)\<close> of the promise of child \<open>i\<close>; a settled promise stays as it is.\<close>

definition resolve :: "nat \<Rightarrow> state \<Rightarrow> state" where
  "resolve i st =
     (if promise (children st ! i) = Pending
      then st\<lparr>children := (children st)[i := (children st ! i)\<lparr>promise := Resolved\<rparr>]\<rparr>
      else st)"

definition reject :: "nat \<Rightarrow> error \<Rightarrow> state \<Rightarrow> state" where
  "reject i e st =
     (if promise (children st ! i) = Pending
      then st\<lparr>children := (children st)[i := (children st ! i)\<lparr>promise := Rejected e\<rparr>],
              errors := (if collect (children st ! i) then errors st @ [e] else errors st)\<rparr>
      else st)"

definition code_text :: "int option \<Rightarrow> string" where
  "code_text code = (case code of None \<Rightarrow> ''null'' | Some n \<Rightarrow> string_of_int n)"

text \<open>The \<open>close\<close> listener of child \<open>i\<close>.\<close>

definition on_close :: "nat \<Rightarrow> int option \<Rightarrow> state \<Rightarrow> state" where
  "on_close i code st =
     (let command = child_command (children st ! i);
          st1 = st\<lparr>runningCommands := removeAll command (runningCommands st)\<rparr>;
          st2 = flush (getPrimaryCommand st1) st1
      in if code = Some 0 then resolve i st2
         else reject i (Error (command @ '' exited with code '' @ code_text code)) st2)"

text \<open>
  One event. An event of a child that has not been spawned has no listener; a \<open>data\<close> event
  has one only if the child was started with \<open>parallel\<close>, its output then being piped.
\<close>

definition handle :: "event \<Rightarrow> state \<Rightarrow> state" where
  "handle ev st =
     (case ev of
        Data i stream chunk \<Rightarrow>
          if i < length (children st) \<and> child_parallel (children st ! i)
          then write_chunk stream chunk (child_command (children st ! i)) (emit (Received ev) st)
          else st
      | Close i code \<Rightarrow>
          if i < length (children st) then on_close i code (emit (Received ev) st) else st
      | Failed i m \<Rightarrow>
          if i < length (children st) then reject i (Error m) (emit (Received ev) st) else st)"

text \<open>
  \<open>await\<close>: events are handled one after the other until the condition holds. The result is
  the state reached and the events left over, or \<open>None\<close> for them when the events end before
  the condition holds: the program is still waiting.
\<close>

fun await :: "(state \<Rightarrow> bool) \<Rightarrow> event list \<Rightarrow> state \<Rightarrow> state \<times> event list option" where
  "await settled [] st = (st, if settled st then Some [] else None)"
| "await settled (ev # evs) st =
     (if settled st then (st, Some (ev # evs)) else await settled evs (handle ev st))"

subsection \<open>\<open>run\<close>\<close>

definition join :: "string \<Rightarrow> string list \<Rightarrow> string" where
  "join sep xs = (case xs of [] \<Rightarrow> [] | y # ys \<Rightarrow> y @ concat (map (\<lambda>z. sep @ z) ys))"

text \<open>The loop that starts all commands of the parallel branch.\<close>

fun start_all :: "string list \<Rightarrow> options \<Rightarrow> host \<Rightarrow> nat list \<Rightarrow> state \<Rightarrow> state \<times> nat list" where
  "start_all [] opts h promises st = (st, promises)"
| "start_all (command # commands) opts h promises st =
     (let (st1, p) = runCommand command opts h st;
          st2 = st1\<lparr>children := (children st1)[p := (children st1 ! p)\<lparr>collect := True\<rparr>]\<rparr>
      in start_all commands opts h (promises @ [p]) st2)"

text \<open>\<open>Handle gathered errors\<close>: what the parallel branch throws, if anything.\<close>

definition gathered :: "error list \<Rightarrow> error + unit" where
  "gathered es =
     (if length es = 1 then Inl (es ! 0)
      else if length es > 1 then
        Inl (AggregateError es
               (''Execution of '' @ string_of_nat (length es) @ '' commands failed'' @ [line_feed]
                @ ''  '' @ join ([line_feed] @ ''  '') (map message es)))
      else Inr ())"

definition run_parallel ::
  "string list \<Rightarrow> options \<Rightarrow> host \<Rightarrow> event list \<Rightarrow> state \<Rightarrow> state \<times> ((error + unit) \<times> event list) option" where
  "run_parallel commands opts h evs st =
     (let (st1, promises) = start_all commands opts h [] (st\<lparr>errors := []\<rparr>)
      in case await (\<lambda>s. list_all (\<lambda>p. promise (children s ! p) \<noteq> Pending) promises) evs st1 of
           (st2, None) \<Rightarrow> (st2, None)
         | (st2, Some rest) \<Rightarrow>
             (let st3 = flushAll st2 in (st3, Some (gathered (errors st3), rest))))"

fun run_sequential ::
  "string list \<Rightarrow> options \<Rightarrow> host \<Rightarrow> event list \<Rightarrow> state \<Rightarrow> state \<times> ((error + unit) \<times> event list) option" where
  "run_sequential [] opts h evs st = (st, Some (Inr (), evs))"
| "run_sequential (command # commands) opts h evs st =
     (let (st1, p) = runCommand command (opts\<lparr>parallel := False\<rparr>) h st
      in case await (\<lambda>s. promise (children s ! p) \<noteq> Pending) evs st1 of
           (st2, None) \<Rightarrow> (st2, None)
         | (st2, Some rest) \<Rightarrow>
             (case promise (children st2 ! p) of
                Rejected e \<Rightarrow> (st2, Some (Inl e, rest))
              | _ \<Rightarrow> run_sequential commands opts h rest st2))"

text \<open>
  \<open>run\<close>. The result is the final state with what \<open>run\<close> returns or throws and the events
  left over, or with \<open>None\<close> when \<open>run\<close> is still waiting for a child at the end of the events.
\<close>

definition run ::
  "string list \<Rightarrow> options \<Rightarrow> host \<Rightarrow> event list \<Rightarrow> state \<Rightarrow> state \<times> ((error + unit) \<times> event list) option" where
  "run commands opts h evs st =
     (case resolveCommands (packageJSON h) commands of
        Inl e \<Rightarrow> (st, Some (Inl e, evs))
      | Inr resolved \<Rightarrow>
          if parallel opts \<and> length resolved > 1 then run_parallel resolved opts h evs st
          else run_sequential resolved opts h evs st)"

subsection \<open>\<open>main\<close>\<close>

text \<open>What \<open>parseArgs\<close> returns: the values of the four flags and the positionals.\<close>

record arg_values = options +
  arg_help :: bool
  arg_version :: bool

definition main ::
  "error + arg_values \<times> string list \<Rightarrow> host \<Rightarrow> event list \<Rightarrow> state \<Rightarrow> state \<times> (int \<times> event list) option" where
  "main parsed h evs st =
     (case parsed of
        Inl e \<Rightarrow> (emit (Console Stderr (''run: '' @ message e)) st, Some (1, evs))
      | Inr (vals, positionals) \<Rightarrow>
          if arg_help vals then (emit (Console Stdout (help_text h)) st, Some (0, evs))
          else if arg_version vals then (emit (Console Stdout (version_text h)) st, Some (0, evs))
          else if length positionals = 0 then
            (emit (Console Stderr (''run: missing script name'' @ [line_feed]
                @ ''Try 'cmd --help' for more information.'')) st, Some (2, evs))
          else
            (case run positionals \<lparr>parallel = parallel vals, silent = silent vals\<rparr> h evs st of
               (st1, None) \<Rightarrow> (st1, None)
             | (st1, Some (Inr u, rest)) \<Rightarrow> (st1, Some (0, rest))
             | (st1, Some (Inl e, rest)) \<Rightarrow>
                 (emit (Console Stderr (''run: '' @ message e)) st1, Some (1, rest))))"

subsection \<open>What the claims about the resolver say of a name\<close>

text \<open>
  \<open>direct_child X name\<close>: the name consists of \<open>X\<close>, a colon and exactly one further
  segment, a non-empty text without colon. \<open>under_prefix X name\<close>: the name starts with
  \<open>X\<close> and a colon. \<open>deep_descendant X name\<close>: the name starts with \<open>X\<close> and a colon
  and something follows, one or more further segments.
\<close>

definition direct_child :: "string \<Rightarrow> string \<Rightarrow> bool" where
  "direct_child X name \<longleftrightarrow>
     take (length X + 1) name = X @ '':'' \<and>
     drop (length X + 1) name \<noteq> [] \<and> CHR '':'' \<notin> set (drop (length X + 1) name)"

definition under_prefix :: "string \<Rightarrow> string \<Rightarrow> bool" where
  "under_prefix X name \<longleftrightarrow> take (length X + 1) name = X @ '':''"

definition deep_descendant :: "string \<Rightarrow> string \<Rightarrow> bool" where
  "deep_descendant X name \<longleftrightarrow>
     take (length X + 1) name = X @ '':'' \<and> drop (length X + 1) name \<noteq> []"

subsection \<open>What the claims about the engine say of a run\<close>

text \<open>
  \<open>buffered st command\<close>: the buffer of the command, empty if it has none.
  \<open>writes_of command tr\<close>: what the log \<open>tr\<close> has written to the real streams on behalf
  of the command, in order. \<open>emitted commands command evs\<close>: the chunks that the children
  running the command emit in the events \<open>evs\<close>, in order; child \<open>i\<close> runs \<open>commands ! i\<close>.
\<close>

definition buffered :: "state \<Rightarrow> string \<Rightarrow> (stream \<times> string) list" where
  "buffered st command = (case map_of (buffers st) command of None \<Rightarrow> [] | Some buffer \<Rightarrow> buffer)"

fun writes_of :: "string \<Rightarrow> io list \<Rightarrow> (stream \<times> string) list" where
  "writes_of command [] = []"
| "writes_of command (Write c stream text # tr) =
     (if c = command then (stream, text) # writes_of command tr else writes_of command tr)"
| "writes_of command (x # tr) = writes_of command tr"


text \<open>The primary command after child \<open>i\<close> has left \<open>runningCommands\<close>.\<close>

definition next_primary :: "nat \<Rightarrow> state \<Rightarrow> string option" where
  "next_primary i st =
     getPrimaryCommand (st\<lparr>runningCommands := removeAll (child_command (children st ! i)) (runningCommands st)\<rparr>)"

text \<open>
  \<open>npm_run par sil h command\<close>: the \<open>spawn\<close> call of \<open>runCommand\<close> for the command, with
  \<open>parallel = par\<close> and \<open>silent = sil\<close>. \<open>spawned tr\<close>: the \<open>spawn\<close> calls of a log, in order.
\<close>

definition npm_run :: "bool \<Rightarrow> bool \<Rightarrow> host \<Rightarrow> string \<Rightarrow> spawn_call" where
  "npm_run par sil h command =
     \<lparr>spawn_file = ''npm'', spawn_args = [''run''] @ (if sil then [''-s''] else []) @ [command],
      spawn_stdio = [Inherit, if par then Pipe else Inherit, if par then Pipe else Inherit],
      spawn_env = (if par then force_color h else env h)\<rparr>"

fun spawned :: "io list \<Rightarrow> spawn_call list" where
  "spawned [] = []"
| "spawned (Spawn sp # tr) = sp # spawned tr"
| "spawned (x # tr) = spawned tr"

text \<open>A host to run examples on.\<close>

definition example_host :: host where
  "example_host =
     \<lparr>env = [(''PATH'', ''/usr/bin'')], stdoutColorDepth = Some 8, stderrColorDepth = Some 24,
      packageJSON = Inr [''clean'', ''build'', ''build:compile'', ''build:schema'', ''build:schema:a'', ''build:schema:b''],
      help_text = ''Usage: run [OPTION]... [COMMAND]...'', version_text = ''run 1.0.0''\<rparr>"




text \<open>
  \<open>one_at_a_time tr\<close>: at every \<open>spawn\<close> call of the log \<open>tr\<close>, each child spawned before
  it has been closed with exit code 0 (the event is in the log before the call). The
  auxiliary function reads the log backwards, the newest entry first.
\<close>

fun newest_first_one_at_a_time :: "io list \<Rightarrow> bool" where
  "newest_first_one_at_a_time [] \<longleftrightarrow> True"
| "newest_first_one_at_a_time (Spawn sp # older) \<longleftrightarrow>
     list_all (\<lambda>i. Received (Close i (Some 0)) \<in> set older) [0 ..< length (spawned older)]
     \<and> newest_first_one_at_a_time older"
| "newest_first_one_at_a_time (x # older) \<longleftrightarrow> newest_first_one_at_a_time older"

definition one_at_a_time :: "io list \<Rightarrow> bool" where
  "one_at_a_time tr \<longleftrightarrow> newest_first_one_at_a_time (rev tr)"

text \<open>What holds of the state all through a sequential run.\<close>

definition seq_inv :: "state \<Rightarrow> bool" where
  "seq_inv st \<longleftrightarrow>
     one_at_a_time (trace st) \<and>
     length (spawned (trace st)) = length (children st) \<and>
     (\<forall>i<length (children st). promise (children st ! i) = Resolved \<longrightarrow>
        Received (Close i (Some 0)) \<in> set (trace st)) \<and>
     (\<forall>i<length (children st). \<forall>es m. promise (children st ! i) \<noteq> Rejected (AggregateError es m)) \<and>
     buffers st = [] \<and>
     (\<forall>i<length (children st). \<not> child_parallel (children st ! i)) \<and>
     (\<forall>c. writes_of c (trace st) = [])"

text \<open>
  \<open>closed_in evs i\<close>: child \<open>i\<close> has exited, its \<open>close\<close> event is among the events
  \<open>evs\<close>. \<open>oldest_running commands evs\<close>: the command of the first child, in start order,
  that is still running after the events \<open>evs\<close>; child \<open>i\<close> runs \<open>commands ! i\<close>.
  \<open>parallel_state commands opts h evs\<close>: the state of a parallel run of the commands that
  has started them all and has handled the events \<open>evs\<close>.
\<close>

definition closed_in :: "event list \<Rightarrow> nat \<Rightarrow> bool" where
  "closed_in evs i \<longleftrightarrow> list_ex (\<lambda>ev. case ev of Close j code \<Rightarrow> j = i | _ \<Rightarrow> False) evs"



section \<open>Properties\<close>

subsection \<open>The regular expression of a pattern\<close>

lemma star_not_special [simp]: "is_star c \<Longrightarrow> \<not> regexp_special c"
  by (auto simp: is_star_def regexp_special_def backslash_def)

lemma escapeSpecials_Nil [simp]: "escapeSpecials [] = []"
  by (simp add: escapeSpecials_def)

lemma escapeSpecials_Cons:
  "escapeSpecials (c # cs) = (if regexp_special c then [backslash, c] else [c]) @ escapeSpecials cs"
  by (simp add: escapeSpecials_def)

lemma not_star_backslash [simp]: "\<not> is_star backslash"
  by (simp add: is_star_def backslash_def)

lemma takeWhile_star_escape: "takeWhile is_star (escapeSpecials cs) = takeWhile is_star cs"
  by (induction cs) (auto simp: escapeSpecials_Cons)

lemma dropWhile_star_escape: "dropWhile is_star (escapeSpecials cs) = escapeSpecials (dropWhile is_star cs)"
  by (induction cs) (auto simp: escapeSpecials_Cons)

lemma regexp_body_source:
  "regexp_body (replaceStars (escapeSpecials command) @ ''$'') = Some (pattern_atoms command)"
proof (induction command rule: pattern_atoms.induct)
  case 1
  then show ?case by simp
next
  case (2 c cs)
  show ?case
  proof (cases "is_star c")
    case True
    then have c: "c = CHR ''*''" by (simp add: is_star_def)
    from True 2 have IH: "regexp_body (replaceStars (escapeSpecials (dropWhile is_star cs)) @ ''$'') = Some (pattern_atoms (dropWhile is_star cs))"
      by simp
    show ?thesis using True IH
      by (simp add: escapeSpecials_Cons takeWhile_star_escape dropWhile_star_escape c backslash_def is_star_def)
  next
    case False
    with 2 have IH: "regexp_body (replaceStars (escapeSpecials cs) @ ''$'') = Some (pattern_atoms cs)"
      by simp
    show ?thesis
    proof (cases "regexp_special c")
      case True
      then show ?thesis using False IH
        by (simp add: escapeSpecials_Cons backslash_def is_star_def)
    next
      case ns: False
      then have "c \<noteq> CHR ''$''" "c \<noteq> backslash" "c \<noteq> CHR ''[''" "c \<noteq> CHR ''.''"
        by (auto simp: regexp_special_def)
      then show ?thesis using False ns IH
        by (simp add: escapeSpecials_Cons)
    qed
  qed
qed

lemma commandToRegExp_atoms: "commandToRegExp command = Some (pattern_atoms command)"
  by (simp add: commandToRegExp_def RegExp_def regexp_source_def regexp_body_source)


lemma matches_Lit: "matches (Lit c # r) s \<longleftrightarrow> (\<exists>t. s = c # t \<and> matches r t)"
  by (cases s) auto

lemma matches_NotColonPlus:
  "matches (NotColonPlus # r) s \<longleftrightarrow>
     (\<exists>u t. s = u @ t \<and> u \<noteq> [] \<and> CHR '':'' \<notin> set u \<and> matches r t)"
proof (induction s)
  case Nil
  then show ?case by simp
next
  case (Cons x xs)
  show ?case
  proof
    assume "matches (NotColonPlus # r) (x # xs)"
    then have x: "x \<noteq> CHR '':''" and d: "matches r xs \<or> matches (NotColonPlus # r) xs"
      by simp_all
    from d show "\<exists>u t. x # xs = u @ t \<and> u \<noteq> [] \<and> CHR '':'' \<notin> set u \<and> matches r t"
    proof
      assume "matches r xs"
      with x have "x # xs = [x] @ xs \<and> [x] \<noteq> [] \<and> CHR '':'' \<notin> set [x] \<and> matches r xs"
        by simp
      then show ?thesis by blast
    next
      assume "matches (NotColonPlus # r) xs"
      with Cons obtain u t where "xs = u @ t" "CHR '':'' \<notin> set u" "matches r t"
        by blast
      with x have "x # xs = (x # u) @ t \<and> x # u \<noteq> [] \<and> CHR '':'' \<notin> set (x # u) \<and> matches r t"
        by simp
      then show ?thesis by blast
    qed
  next
    assume "\<exists>u t. x # xs = u @ t \<and> u \<noteq> [] \<and> CHR '':'' \<notin> set u \<and> matches r t"
    then obtain u t where ut: "x # xs = u @ t" "u \<noteq> []" "CHR '':'' \<notin> set u" "matches r t"
      by blast
    then obtain u' where u: "u = x # u'" by (cases u) auto
    with ut have xs: "xs = u' @ t" and x: "x \<noteq> CHR '':''" and u': "CHR '':'' \<notin> set u'"
      by auto
    show "matches (NotColonPlus # r) (x # xs)"
    proof (cases "u' = []")
      case True
      with xs ut x show ?thesis by simp
    next
      case False
      with xs u' ut(4) Cons have "matches (NotColonPlus # r) xs" by blast
      with x show ?thesis by simp
    qed
  qed
qed

lemma matches_DotStar:
  "matches (DotStar # r) s \<longleftrightarrow>
     (\<exists>u t. s = u @ t \<and> (\<forall>c\<in>set u. \<not> line_terminator c) \<and> matches r t)"
proof (induction s)
  case Nil
  then show ?case by simp
next
  case (Cons x xs)
  show ?case
  proof
    assume "matches (DotStar # r) (x # xs)"
    then have "matches r (x # xs) \<or> (\<not> line_terminator x \<and> matches (DotStar # r) xs)"
      by simp
    then show "\<exists>u t. x # xs = u @ t \<and> (\<forall>c\<in>set u. \<not> line_terminator c) \<and> matches r t"
    proof
      assume "matches r (x # xs)"
      then have "x # xs = [] @ (x # xs) \<and> (\<forall>c\<in>set []. \<not> line_terminator c) \<and> matches r (x # xs)"
        by simp
      then show ?thesis by blast
    next
      assume a: "\<not> line_terminator x \<and> matches (DotStar # r) xs"
      with Cons obtain u t where "xs = u @ t" "\<forall>c\<in>set u. \<not> line_terminator c" "matches r t"
        by blast
      with a have "x # xs = (x # u) @ t \<and> (\<forall>c\<in>set (x # u). \<not> line_terminator c) \<and> matches r t"
        by simp
      then show ?thesis by blast
    qed
  next
    assume "\<exists>u t. x # xs = u @ t \<and> (\<forall>c\<in>set u. \<not> line_terminator c) \<and> matches r t"
    then obtain u t where ut: "x # xs = u @ t" "\<forall>c\<in>set u. \<not> line_terminator c" "matches r t"
      by blast
    show "matches (DotStar # r) (x # xs)"
    proof (cases u)
      case Nil
      with ut have "matches r (x # xs)" by simp
      then show ?thesis by simp
    next
      case (Cons y u')
      with ut have "xs = u' @ t" "\<not> line_terminator x" "\<forall>c\<in>set u'. \<not> line_terminator c"
        by auto
      with ut(3) Cons.IH have "matches (DotStar # r) xs" by blast
      with \<open>\<not> line_terminator x\<close> show ?thesis by simp
    qed
  qed
qed

lemma matches_literal_prefix:
  "matches (map Lit X @ r) s \<longleftrightarrow> take (length X) s = X \<and> matches r (drop (length X) s)"
proof (induction X arbitrary: s)
  case Nil
  then show ?case by simp
next
  case (Cons c X)
  then show ?case by (cases s) auto
qed

lemma pattern_atoms_literal_prefix:
  "CHR ''*'' \<notin> set X \<Longrightarrow> pattern_atoms (X @ Y) = map Lit X @ pattern_atoms Y"
  by (induction X) (auto simp: is_star_def)

lemma matches_single_star:
  assumes "CHR ''*'' \<notin> set X"
  shows "matches (pattern_atoms (X @ '':*'')) name \<longleftrightarrow> direct_child X name"
proof -
  have a: "pattern_atoms (X @ '':*'') = map Lit (X @ '':'') @ [NotColonPlus]"
    using pattern_atoms_literal_prefix [OF assms, of "'':*''"] by (simp add: is_star_def)
  have "matches [NotColonPlus] s \<longleftrightarrow> s \<noteq> [] \<and> CHR '':'' \<notin> set s" for s
    by (auto simp: matches_NotColonPlus)
  then show ?thesis
    unfolding a matches_literal_prefix by (simp add: direct_child_def)
qed

lemma matches_double_star:
  assumes "CHR ''*'' \<notin> set X"
  shows "matches (pattern_atoms (X @ '':**'')) name \<longleftrightarrow>
     under_prefix X name \<and> (\<forall>c\<in>set (drop (length X + 1) name). \<not> line_terminator c)"
proof -
  have a: "pattern_atoms (X @ '':**'') = map Lit (X @ '':'') @ [DotStar]"
    using pattern_atoms_literal_prefix [OF assms, of "'':**''"] by (simp add: is_star_def)
  have "matches [DotStar] s \<longleftrightarrow> (\<forall>c\<in>set s. \<not> line_terminator c)" for s
    by (auto simp: matches_DotStar)
  then show ?thesis
    unfolding a matches_literal_prefix by (simp add: under_prefix_def)
qed

lemma colon_not_array_index: "CHR '':'' \<in> set name \<Longrightarrow> \<not> array_index name"
proof
  assume "CHR '':'' \<in> set name" and "array_index name"
  then have "is_digit CHR '':''" by (simp add: array_index_def list_all_iff)
  then show False by (simp add: is_digit_def)
qed

lemma under_prefix_colon: "under_prefix X name \<Longrightarrow> CHR '':'' \<in> set name"
proof -
  assume "under_prefix X name"
  then have "take (length X + 1) name = X @ '':''" by (simp add: under_prefix_def)
  then have "CHR '':'' \<in> set (take (length X + 1) name)" by simp
  then show ?thesis by (rule in_set_takeD)
qed

lemma filter_Object_keys:
  assumes "\<And>n. P n \<Longrightarrow> \<not> array_index n"
  shows "filter P (Object_keys names) = filter P names"
proof -
  have "filter P (sort_key index_value (filter array_index names)) = []"
    using assms by (auto simp: filter_empty_conv)
  moreover have "filter P (filter (\<lambda>n. \<not> array_index n) names) = filter P names"
    using assms by (auto intro: filter_cong)
  ultimately show ?thesis by (simp add: Object_keys_def)
qed

subsection \<open>Claims about the resolver\<close>

text \<open>
  C4: for every registry \<open>R\<close> and every prefix \<open>X\<close> (a literal text, without asterisk),
  resolving the pattern \<open>X:*\<close> yields exactly the registered names that consist of \<open>X\<close>, a
  colon and exactly one further segment of one or more characters other than a colon, and
  nothing more, in the order \<open>R\<close> declares them.
\<close>

theorem C4_single_star:
  "CHR ''*'' \<notin> set X \<Longrightarrow> resolveCommands (Inr R) [X @ '':*''] = Inr (filter (direct_child X) R)"
proof -
  assume X: "CHR ''*'' \<notin> set X"
  have "filter (direct_child X) (Object_keys R) = filter (direct_child X) R"
    by (rule filter_Object_keys)
       (auto simp: direct_child_def under_prefix_def intro!: colon_not_array_index under_prefix_colon)
  then have "filter (matches (pattern_atoms (X @ '':*''))) (Object_keys R) = filter (direct_child X) R"
    by (simp add: matches_single_star [OF X] cong: filter_cong)
  then show ?thesis
    by (simp add: resolveCommands_def resolveCommand_def commandToRegExp_atoms)
qed

theorem C4_single_star_witness:
  "CHR ''*'' \<notin> set ''build'' \<and>
   resolveCommands (Inr [''clean'', ''build'', ''build:compile'', ''build:schema'', ''build:schema:a'', ''7'', ''build:x:'', ''build:''])
     [''build:*'']
     = Inr [''build:compile'', ''build:schema'']"
  using C4_single_star [of "''build''"
      "[''clean'', ''build'', ''build:compile'', ''build:schema'', ''build:schema:a'', ''7'', ''build:x:'', ''build:'']"]
  by (simp add: direct_child_def)

text \<open>
  C5, as stated, fails. With the names \<open>b:\<close> and \<open>b:x\<close>, line feed, \<open>y\<close> registered, the
  pattern \<open>b:**\<close> resolves to \<open>b:\<close> alone: a name in which nothing follows the colon is
  matched (\<open>.*\<close> matches the empty text), and a name with a line terminator after the prefix
  is not (\<open>.\<close> matches no line terminator), although \<open>b:*\<close> resolves to it.
\<close>

theorem C5_double_star_counterexample:
  "resolveCommands (Inr [''b:'', ''b:x'' @ [line_feed] @ ''y'']) [''b:**''] = Inr [''b:''] \<and>
   filter (deep_descendant ''b'') [''b:'', ''b:x'' @ [line_feed] @ ''y''] = [''b:x'' @ [line_feed] @ ''y''] \<and>
   resolveCommands (Inr [''b:'', ''b:x'' @ [line_feed] @ ''y'']) [''b:*''] = Inr [''b:x'' @ [line_feed] @ ''y'']"
  by (simp add: resolveCommands_def resolveCommand_def commandToRegExp_atoms Object_keys_def
      array_index_def is_digit_def is_star_def deep_descendant_def line_terminator_def line_feed_def
      carriage_return_def)

text \<open>
  C5, amended: for every registry \<open>R\<close> whose names contain no line terminator and every
  prefix \<open>X\<close> without asterisk, resolving \<open>X:**\<close> yields exactly the registered names that
  start with \<open>X\<close> and a colon, whatever follows (nothing, or segments at any depth), in the
  order \<open>R\<close> declares them, and every name that \<open>X:*\<close> resolves to is among them.
\<close>

theorem C5_double_star:
  assumes X: "CHR ''*'' \<notin> set X"
    and R: "list_all (\<lambda>name. \<not> list_ex line_terminator name) R"
  shows "resolveCommands (Inr R) [X @ '':**''] = Inr (filter (under_prefix X) R) \<and>
    (\<exists>direct. resolveCommands (Inr R) [X @ '':*''] = Inr direct \<and>
       set direct \<subseteq> set (filter (under_prefix X) R))"
proof -
  have "filter (under_prefix X) (Object_keys R) = filter (under_prefix X) R"
    by (rule filter_Object_keys) (auto intro!: colon_not_array_index under_prefix_colon)
  moreover have "filter (matches (pattern_atoms (X @ '':**''))) (Object_keys R)
      = filter (under_prefix X) (Object_keys R)"
  proof (rule filter_cong [OF refl])
    fix name assume "name \<in> set (Object_keys R)"
    then have "name \<in> set R" by (auto simp: Object_keys_def)
    with R have "\<forall>c\<in>set name. \<not> line_terminator c"
      by (auto simp: list_all_iff list_ex_iff)
    then have "\<forall>c\<in>set (drop (length X + 1) name). \<not> line_terminator c"
      by (blast dest: in_set_dropD)
    then show "matches (pattern_atoms (X @ '':**'')) name = under_prefix X name"
      by (simp add: matches_double_star [OF X])
  qed
  ultimately have deep: "resolveCommands (Inr R) [X @ '':**''] = Inr (filter (under_prefix X) R)"
    by (simp add: resolveCommands_def resolveCommand_def commandToRegExp_atoms)
  have "filter (direct_child X) (Object_keys R) = filter (direct_child X) R"
    by (rule filter_Object_keys)
       (auto simp: direct_child_def under_prefix_def intro!: colon_not_array_index under_prefix_colon)
  then have direct: "resolveCommands (Inr R) [X @ '':*''] = Inr (filter (direct_child X) R)"
    by (simp add: resolveCommands_def resolveCommand_def commandToRegExp_atoms
        matches_single_star [OF X] cong: filter_cong)
  have "set (filter (direct_child X) R) \<subseteq> set (filter (under_prefix X) R)"
    by (auto simp: direct_child_def under_prefix_def)
  with deep direct show ?thesis by simp
qed

theorem C5_double_star_witness:
  "CHR ''*'' \<notin> set ''build'' \<and>
   list_all (\<lambda>name. \<not> list_ex line_terminator name)
     [''clean'', ''build'', ''build:compile'', ''build:schema'', ''build:schema:a'', ''build:''] \<and>
   resolveCommands (Inr [''clean'', ''build'', ''build:compile'', ''build:schema'', ''build:schema:a'', ''build:''])
     [''build:**'']
     = Inr [''build:compile'', ''build:schema'', ''build:schema:a'', ''build:'']"
proof -
  have X: "CHR ''*'' \<notin> set ''build''" by simp
  have R: "list_all (\<lambda>name. \<not> list_ex line_terminator name)
     [''clean'', ''build'', ''build:compile'', ''build:schema'', ''build:schema:a'', ''build:'']"
    by (simp add: line_terminator_def line_feed_def carriage_return_def)
  show ?thesis
    using C5_double_star [OF X R] R by (simp add: under_prefix_def)
qed

subsection \<open>The buffer, the listeners and the loops, field by field\<close>

lemma writes_of_append [simp]: "writes_of c (xs @ ys) = writes_of c xs @ writes_of c ys"
  by (induction c xs rule: writes_of.induct) auto


lemma writes_of_flushed [simp]:
  "writes_of c' (map (\<lambda>(stream, text). Write c stream text) b) = (if c' = c then b else [])"
  by (induction b) auto

lemma emit_fields [simp]:
  "trace (emit x st) = trace st @ [x]"
  "buffers (emit x st) = buffers st"
  "children (emit x st) = children st"
  "errors (emit x st) = errors st"
  "runningCommands (emit x st) = runningCommands st"
  by (simp_all add: emit_def)

lemma buffered_emit [simp]: "buffered (emit x st) c = buffered st c"
  by (simp add: buffered_def)

lemma getPrimaryCommand_emit [simp]: "getPrimaryCommand (emit x st) = getPrimaryCommand st"
  by (simp add: getPrimaryCommand_def)


lemma write_chunk_fields [simp]:
  "children (write_chunk s t c st) = children st"
  "errors (write_chunk s t c st) = errors st"
  "runningCommands (write_chunk s t c st) = runningCommands st"
  "trace (write_chunk s t c st) =
     (if getPrimaryCommand st = Some c then trace st @ [Write c s t] else trace st)"
  by (simp_all add: write_chunk_def)


lemma filter_absent_key: "map_of m c = None \<Longrightarrow> filter (\<lambda>(k, b). k \<noteq> c) m = m"
  by (induction m) (auto split: if_splits)

lemma map_of_filter_key:
  "map_of (filter (\<lambda>(k, b). k \<noteq> c) m) c' = (if c' = c then None else map_of m c')"
  by (induction m) auto

lemma flush_fields [simp]:
  "children (flush co st) = children st"
  "errors (flush co st) = errors st"
  "runningCommands (flush co st) = runningCommands st"
  by (simp_all add: flush_def split: option.splits)

lemma flush_None [simp]: "flush None st = st"
  by (simp add: flush_def)

lemma trace_flush: "trace (flush (Some c) st) = trace st @ map (\<lambda>(stream, text). Write c stream text) (buffered st c)"
  by (simp add: flush_def buffered_def split: option.splits)

lemma buffers_flush: "buffers (flush (Some c) st) = filter (\<lambda>(k, b). k \<noteq> c) (buffers st)"
  by (simp add: flush_def filter_absent_key split: option.splits)

lemma buffered_flush: "buffered (flush (Some c) st) c' = (if c' = c then [] else buffered st c')"
  by (simp add: buffered_def buffers_flush map_of_filter_key)

lemma flush_all_keys:
  "buffers (fold (\<lambda>c. flush (Some c)) ks st) = filter (\<lambda>(k, b). k \<notin> set ks) (buffers st) \<and>
   children (fold (\<lambda>c. flush (Some c)) ks st) = children st \<and>
   errors (fold (\<lambda>c. flush (Some c)) ks st) = errors st \<and>
   runningCommands (fold (\<lambda>c. flush (Some c)) ks st) = runningCommands st \<and>
   (\<forall>c. writes_of c (trace (fold (\<lambda>c. flush (Some c)) ks st)) =
        writes_of c (trace st) @ (if c \<in> set ks then buffered st c else []))"
proof (induction ks arbitrary: st)
  case Nil
  then show ?case by simp
next
  case (Cons k ks)
  have "filter (\<lambda>(k', b). k' \<notin> set ks) (filter (\<lambda>(k', b). k' \<noteq> k) (buffers st))
      = filter (\<lambda>(k', b). k' \<notin> set (k # ks)) (buffers st)"
    by (auto intro: filter_cong)
  then show ?case
    using Cons [of "flush (Some k) st"]
    by (simp add: buffers_flush trace_flush buffered_flush)
qed


lemma flushAll_fields [simp]:
  "buffers (flushAll st) = []"
  "children (flushAll st) = children st"
  "errors (flushAll st) = errors st"
  "runningCommands (flushAll st) = runningCommands st"
proof -
  have "filter (\<lambda>(k, b). k \<notin> set (map fst (buffers st))) (buffers st) = []"
    by (force simp: filter_empty_conv)
  then show "buffers (flushAll st) = []"
    using flush_all_keys [of "map fst (buffers st)" st] by (simp add: flushAll_def)
  show "children (flushAll st) = children st" "errors (flushAll st) = errors st"
    "runningCommands (flushAll st) = runningCommands st"
    using flush_all_keys [of "map fst (buffers st)" st] by (simp_all add: flushAll_def)
qed


lemma update_promise_map:
  assumes "\<And>ch p. f (ch\<lparr>promise := p\<rparr>) = f ch"
  shows "map f (chs[i := (chs ! i)\<lparr>promise := p\<rparr>]) = map f chs"
proof (cases "i < length chs")
  case True
  then show ?thesis by (simp add: map_update assms list_update_same_conv)
next
  case False
  then show ?thesis by (simp add: list_update_beyond)
qed

lemma resolve_fields [simp]:
  "trace (resolve i st) = trace st"
  "buffers (resolve i st) = buffers st"
  "runningCommands (resolve i st) = runningCommands st"
  "errors (resolve i st) = errors st"
  "length (children (resolve i st)) = length (children st)"
  "map child_command (children (resolve i st)) = map child_command (children st)"
  "map child_parallel (children (resolve i st)) = map child_parallel (children st)"
  "map collect (children (resolve i st)) = map collect (children st)"
  by (simp_all add: resolve_def update_promise_map)

lemma reject_fields [simp]:
  "trace (reject i e st) = trace st"
  "buffers (reject i e st) = buffers st"
  "runningCommands (reject i e st) = runningCommands st"
  "length (children (reject i e st)) = length (children st)"
  "map child_command (children (reject i e st)) = map child_command (children st)"
  "map child_parallel (children (reject i e st)) = map child_parallel (children st)"
  "map collect (children (reject i e st)) = map collect (children st)"
  by (simp_all add: reject_def update_promise_map)

lemma buffered_settle [simp]:
  "buffered (resolve i st) c = buffered st c"
  "buffered (reject i e st) c = buffered st c"
  by (simp_all add: buffered_def)

lemma getPrimaryCommand_settle [simp]:
  "getPrimaryCommand (resolve i st) = getPrimaryCommand st"
  "getPrimaryCommand (reject i e st) = getPrimaryCommand st"
  "getPrimaryCommand (flush co st) = getPrimaryCommand st"
  "getPrimaryCommand (write_chunk s t c st) = getPrimaryCommand st"
  by (simp_all add: getPrimaryCommand_def)

lemma buffered_running [simp]: "buffered (st\<lparr>runningCommands := r\<rparr>) c = buffered st c"
  by (simp add: buffered_def)

lemma on_close_unfold:
  "on_close i code st =
     (let st2 = flush (next_primary i st)
                  (st\<lparr>runningCommands := removeAll (child_command (children st ! i)) (runningCommands st)\<rparr>)
      in if code = Some 0 then resolve i st2
         else reject i (Error (child_command (children st ! i) @ '' exited with code '' @ code_text code)) st2)"
  by (simp add: on_close_def next_primary_def Let_def)

lemma on_close_fields:
  "runningCommands (on_close i code st) = removeAll (child_command (children st ! i)) (runningCommands st)"
  "length (children (on_close i code st)) = length (children st)"
  "map child_command (children (on_close i code st)) = map child_command (children st)"
  "map child_parallel (children (on_close i code st)) = map child_parallel (children st)"
  "map collect (children (on_close i code st)) = map collect (children st)"
  by (simp_all add: on_close_unfold Let_def)


lemma trace_on_close:
  "trace (on_close i code st) =
     (case next_primary i st of None \<Rightarrow> trace st
      | Some p \<Rightarrow> trace st @ map (\<lambda>(stream, text). Write p stream text) (buffered st p))"
  by (cases "next_primary i st") (simp_all add: on_close_unfold Let_def trace_flush)

lemma buffers_on_close:
  "buffers (on_close i code st) =
     (case next_primary i st of None \<Rightarrow> buffers st | Some p \<Rightarrow> filter (\<lambda>(k, b). k \<noteq> p) (buffers st))"
  by (cases "next_primary i st") (simp_all add: on_close_unfold Let_def buffers_flush)


lemma handle_children [simp]:
  "length (children (handle ev st)) = length (children st)"
  "map child_command (children (handle ev st)) = map child_command (children st)"
  "map child_parallel (children (handle ev st)) = map child_parallel (children st)"
  "map collect (children (handle ev st)) = map collect (children st)"
  by (simp_all add: handle_def on_close_fields split: event.splits)


lemma spawned_append [simp]: "spawned (xs @ ys) = spawned xs @ spawned ys"
  by (induction xs rule: spawned.induct) auto



lemma await_Some:
  "await P evs st = (st', Some rest) \<Longrightarrow> \<exists>pre. evs = pre @ rest \<and> st' = fold handle pre st \<and> P st'"
proof (induction evs arbitrary: st)
  case Nil
  then show ?case by (simp split: if_splits)
next
  case (Cons ev evs)
  show ?case
  proof (cases "P st")
    case True
    with Cons.prems have "ev # evs = [] @ rest \<and> st' = fold handle [] st \<and> P st'" by simp
    then show ?thesis by blast
  next
    case False
    with Cons.prems have "await P evs (handle ev st) = (st', Some rest)" by simp
    from Cons.IH [OF this] obtain pre where "evs = pre @ rest" "st' = fold handle pre (handle ev st)" "P st'"
      by blast
    then have "ev # evs = (ev # pre) @ rest \<and> st' = fold handle (ev # pre) st \<and> P st'" by simp
    then show ?thesis by blast
  qed
qed

lemma await_None:
  "await P evs st = (st', None) \<Longrightarrow> st' = fold handle evs st \<and> \<not> P st'"
  by (induction evs arbitrary: st) (auto split: if_splits)

lemma runCommand_fields [simp]:
  "snd (runCommand c opts h st) = length (children st)"
  "children (fst (runCommand c opts h st)) =
     children st @ [\<lparr>child_command = c, child_parallel = parallel opts, collect = False, promise = Pending\<rparr>]"
  "buffers (fst (runCommand c opts h st)) = buffers st"
  "errors (fst (runCommand c opts h st)) = errors st"
  "trace (fst (runCommand c opts h st)) = trace st @ [Spawn (npm_run (parallel opts) (silent opts) h c)]"
  "runningCommands (fst (runCommand c opts h st)) =
     (if c \<in> set (runningCommands st) then runningCommands st else runningCommands st @ [c])"
  by (simp_all add: runCommand_def Let_def npm_run_def)

lemma upt_shift: "n # [Suc n ..< Suc (n + k)] = [n ..< Suc (n + k)]"
  by (simp add: upt_conv_Cons del: upt_Suc)

lemma start_all_all:
  "children (fst (start_all cmds opts h ps st)) =
     children st @ map (\<lambda>c. \<lparr>child_command = c, child_parallel = parallel opts, collect = True, promise = Pending\<rparr>) cmds \<and>
   buffers (fst (start_all cmds opts h ps st)) = buffers st \<and>
   errors (fst (start_all cmds opts h ps st)) = errors st \<and>
   trace (fst (start_all cmds opts h ps st)) = trace st @ map (\<lambda>c. Spawn (npm_run (parallel opts) (silent opts) h c)) cmds \<and>
   snd (start_all cmds opts h ps st) = ps @ [length (children st) ..< length (children st) + length cmds]"
proof (induction cmds arbitrary: ps st)
  case Nil
  then show ?case by simp
next
  case (Cons c cmds)
  show ?case
    by (simp add: Cons split_beta Let_def upt_shift del: upt_Suc)
qed

lemmas start_all_fields = start_all_all [THEN conjunct1] start_all_all [THEN conjunct2, THEN conjunct1]
  start_all_all [THEN conjunct2, THEN conjunct2, THEN conjunct1]
  start_all_all [THEN conjunct2, THEN conjunct2, THEN conjunct2, THEN conjunct1]
  start_all_all [THEN conjunct2, THEN conjunct2, THEN conjunct2, THEN conjunct2]

lemma writes_of_spawns [simp]: "writes_of c (map (\<lambda>x. Spawn (f x)) xs) = []"
  by (induction xs) auto

lemma run_parallel_Some:
  assumes "run_parallel cmds opts h evs st0 = (st, Some (result, rest))"
  obtains st1 ps handled where
    "start_all cmds opts h [] (st0\<lparr>errors := []\<rparr>) = (st1, ps)"
    "evs = handled @ rest"
    "st = flushAll (fold handle handled st1)"
    "list_all (\<lambda>p. promise (children (fold handle handled st1) ! p) \<noteq> Pending) ps"
    "result = gathered (errors st)"
proof -
  obtain st1 ps where start: "start_all cmds opts h [] (st0\<lparr>errors := []\<rparr>) = (st1, ps)"
    by (cases "start_all cmds opts h [] (st0\<lparr>errors := []\<rparr>)")
  obtain st2 r where aw: "await (\<lambda>s. list_all (\<lambda>p. promise (children s ! p) \<noteq> Pending) ps) evs st1 = (st2, r)"
    by (cases "await (\<lambda>s. list_all (\<lambda>p. promise (children s ! p) \<noteq> Pending) ps) evs st1")
  from assms start aw have r: "r = Some rest" and st: "st = flushAll st2"
    and res: "result = gathered (errors (flushAll st2))"
    by (auto simp: run_parallel_def Let_def split: option.splits)
  from await_Some [OF aw [unfolded r]] obtain handled where
    "evs = handled @ rest" "st2 = fold handle handled st1"
    "list_all (\<lambda>p. promise (children st2 ! p) \<noteq> Pending) ps"
    by blast
  with start st res that show thesis by simp
qed

subsection \<open>Claims about the engine\<close>

lemma promise_resolve:
  "promise (children (resolve i st) ! j) =
     (if j = i \<and> i < length (children st) \<and> promise (children st ! i) = Pending then Resolved
      else promise (children st ! j))"
  by (cases "i < length (children st)") (auto simp: resolve_def nth_list_update list_update_beyond)

lemma promise_reject:
  "promise (children (reject i e st) ! j) =
     (if j = i \<and> i < length (children st) \<and> promise (children st ! i) = Pending then Rejected e
      else promise (children st ! j))"
  by (cases "i < length (children st)") (auto simp: reject_def nth_list_update list_update_beyond)

lemma errors_reject:
  "errors (reject i e st) =
     (if promise (children st ! i) = Pending \<and> collect (children st ! i) then errors st @ [e]
      else errors st)"
  by (simp add: reject_def)

lemma children_flush_running [simp]:
  "children (flush co (st\<lparr>runningCommands := r\<rparr>)) = children st"
  "errors (flush co (st\<lparr>runningCommands := r\<rparr>)) = errors st"
  by simp_all

lemma promise_on_close:
  "promise (children (on_close i code st) ! j) =
     (if j = i \<and> i < length (children st) \<and> promise (children st ! i) = Pending
      then (if code = Some 0 then Resolved
            else Rejected (Error (child_command (children st ! i) @ '' exited with code '' @ code_text code)))
      else promise (children st ! j))"
  by (simp add: on_close_unfold Let_def promise_resolve promise_reject)

lemma errors_on_close:
  "errors (on_close i code st) =
     (if code \<noteq> Some 0 \<and> promise (children st ! i) = Pending \<and> collect (children st ! i)
      then errors st @ [Error (child_command (children st ! i) @ '' exited with code '' @ code_text code)]
      else errors st)"
  by (simp add: on_close_unfold Let_def errors_reject)


lemma errors_handle:
  "errors (handle ev st) =
     (case ev of
        Data i stream chunk \<Rightarrow> errors st
      | Close i code \<Rightarrow>
          if i < length (children st) \<and> code \<noteq> Some 0 \<and> promise (children st ! i) = Pending
             \<and> collect (children st ! i)
          then errors st @ [Error (child_command (children st ! i) @ '' exited with code '' @ code_text code)]
          else errors st
      | Failed i m \<Rightarrow>
          if i < length (children st) \<and> promise (children st ! i) = Pending \<and> collect (children st ! i)
          then errors st @ [Error m] else errors st)"
  by (cases ev) (simp_all add: handle_def errors_on_close errors_reject)



lemma spawned_writes [simp]: "spawned (map (\<lambda>(stream, text). Write c stream text) b) = []"
  by (induction b) auto

lemma spawned_flush [simp]: "spawned (trace (flush co st)) = spawned (trace st)"
  by (cases co) (simp_all add: trace_flush)

lemma spawned_flushAll [simp]: "spawned (trace (flushAll st)) = spawned (trace st)"
proof -
  have "spawned (trace (fold (\<lambda>c. flush (Some c)) ks s)) = spawned (trace s)" for ks s
    by (induction ks arbitrary: s) simp_all
  then show ?thesis by (simp add: flushAll_def)
qed

lemma spawned_handle [simp]: "spawned (trace (handle ev st)) = spawned (trace st)"
proof (cases ev)
  case (Data i stream chunk)
  then show ?thesis by (simp add: handle_def)
next
  case (Close i code)
  then show ?thesis
    by (cases "next_primary i (emit (Received ev) st)") (simp_all add: handle_def trace_on_close)
next
  case (Failed i m)
  then show ?thesis by (simp add: handle_def)
qed

lemma spawned_exec [simp]: "spawned (trace (fold handle evs st)) = spawned (trace st)"
  by (induction evs arbitrary: st) simp_all

lemma length_children_exec [simp]: "length (children (fold handle evs st)) = length (children st)"
  by (induction evs arbitrary: st) simp_all

lemma spawned_spawns [simp]: "spawned (map (\<lambda>x. Spawn (f x)) xs) = map f xs"
  by (induction xs) auto



lemma run_parallel_None:
  assumes "run_parallel cmds opts h evs st0 = (st, None)"
  obtains st1 ps where
    "start_all cmds opts h [] (st0\<lparr>errors := []\<rparr>) = (st1, ps)"
    "st = fold handle evs st1"
    "\<not> list_all (\<lambda>p. promise (children st ! p) \<noteq> Pending) ps"
proof -
  obtain st1 ps where start: "start_all cmds opts h [] (st0\<lparr>errors := []\<rparr>) = (st1, ps)"
    by (cases "start_all cmds opts h [] (st0\<lparr>errors := []\<rparr>)")
  obtain st2 r where aw: "await (\<lambda>s. list_all (\<lambda>p. promise (children s ! p) \<noteq> Pending) ps) evs st1 = (st2, r)"
    by (cases "await (\<lambda>s. list_all (\<lambda>p. promise (children s ! p) \<noteq> Pending) ps) evs st1")
  from assms start aw have r: "r = None" and st: "st = st2"
    by (auto simp: run_parallel_def Let_def split: option.splits)
  from await_None [OF aw [unfolded r]] st have "st = fold handle evs st1"
    and "\<not> list_all (\<lambda>p. promise (children st ! p) \<noteq> Pending) ps"
    by auto
  with start that show thesis by blast
qed





lemma await_settled: "P st \<Longrightarrow> await P evs st = (st, Some evs)"
  by (cases evs) simp_all

lemma promise_handle_Close:
  "i < length (children st) \<Longrightarrow>
   promise (children (handle (Close i code) st) ! j) =
     (if j = i \<and> promise (children st ! i) = Pending
      then (if code = Some 0 then Resolved
            else Rejected (Error (child_command (children st ! i) @ '' exited with code '' @ code_text code)))
      else promise (children st ! j))"
  by (simp add: handle_def promise_on_close)

lemma promise_handle:
  "promise (children (handle ev st) ! j) =
     (case ev of
        Data i stream chunk \<Rightarrow> promise (children st ! j)
      | Close i code \<Rightarrow>
          if j = i \<and> i < length (children st) \<and> promise (children st ! i) = Pending
          then (if code = Some 0 then Resolved
                else Rejected (Error (child_command (children st ! i) @ '' exited with code '' @ code_text code)))
          else promise (children st ! j)
      | Failed i m \<Rightarrow>
          if j = i \<and> i < length (children st) \<and> promise (children st ! i) = Pending
          then Rejected (Error m) else promise (children st ! j))"
  by (cases ev) (auto simp: handle_def promise_on_close promise_reject)

lemma run_sequential_Cons:
  assumes aw: "await (\<lambda>s'. promise (children s' ! length (children s)) \<noteq> Pending) evs
      (fst (runCommand command (opts\<lparr>parallel := False\<rparr>) h s)) = (st2, r)"
  shows "run_sequential (command # commands) opts h evs s =
     (case r of
        None \<Rightarrow> (st2, None)
      | Some rest \<Rightarrow>
          (case promise (children st2 ! length (children s)) of
             Rejected e \<Rightarrow> (st2, Some (Inl e, rest))
           | _ \<Rightarrow> run_sequential commands opts h rest st2))"
  by (simp only: run_sequential.simps Let_def split_beta runCommand_fields aw fst_conv snd_conv)

text \<open>
  C10, amended: the promise of a command is resolved only by a \<open>close\<close> event of its child
  with exit code 0. A \<open>close\<close> with any other code, \<open>null\<close> included, that finds the promise
  still pending (no \<open>error\<close> event of the child has rejected it before) rejects it with an
  error whose message names the command and the code. The rejection is a failure of the
  command: with the \<open>catch\<close> of the parallel branch attached it is appended to the errors
  gathered, and in the sequential loop it ends the run with that error, and a code of 0
  lets the loop go on.
\<close>

theorem C10_close_code:
  "(i < length (children st) \<and> promise (children st ! i) = Pending \<longrightarrow>
      promise (children (handle (Close i code) st) ! i) =
        (if code = Some 0 then Resolved
         else Rejected (Error (child_command (children st ! i) @ '' exited with code ''
                @ (case code of None \<Rightarrow> ''null'' | Some n \<Rightarrow> string_of_int n)))) \<and>
      errors (handle (Close i code) st) =
        (if code \<noteq> Some 0 \<and> collect (children st ! i)
         then errors st @ [Error (child_command (children st ! i) @ '' exited with code ''
                @ (case code of None \<Rightarrow> ''null'' | Some n \<Rightarrow> string_of_int n))]
         else errors st) \<and>
      (promise (children (handle ev st) ! i) = Resolved \<longrightarrow> ev = Close i (Some 0))) \<and>
   run_sequential (command # commands) opts h (Close (length (children s)) code # evs) s =
     (let s1 = handle (Close (length (children s)) code)
                 (fst (runCommand command (opts\<lparr>parallel := False\<rparr>) h s))
      in if code = Some 0 then run_sequential commands opts h evs s1
         else (s1, Some (Inl (Error (command @ '' exited with code ''
                @ (case code of None \<Rightarrow> ''null'' | Some n \<Rightarrow> string_of_int n))), evs)))"
proof (intro conjI impI)
  assume a: "i < length (children st) \<and> promise (children st ! i) = Pending"
  then show "promise (children (handle (Close i code) st) ! i) =
        (if code = Some 0 then Resolved
         else Rejected (Error (child_command (children st ! i) @ '' exited with code ''
                @ (case code of None \<Rightarrow> ''null'' | Some n \<Rightarrow> string_of_int n))))"
    by (simp add: promise_handle_Close code_text_def)
  from a show "errors (handle (Close i code) st) =
        (if code \<noteq> Some 0 \<and> collect (children st ! i)
         then errors st @ [Error (child_command (children st ! i) @ '' exited with code ''
                @ (case code of None \<Rightarrow> ''null'' | Some n \<Rightarrow> string_of_int n))]
         else errors st)"
    by (simp add: errors_handle code_text_def)
  assume "promise (children (handle ev st) ! i) = Resolved"
  with a show "ev = Close i (Some 0)"
    by (cases ev) (auto simp: promise_handle split: if_splits)
next
  let ?p = "length (children s)"
  let ?st1 = "fst (runCommand command (opts\<lparr>parallel := False\<rparr>) h s)"
  let ?s1 = "handle (Close ?p code) ?st1"
  have pend: "promise (children ?st1 ! ?p) = Pending" by simp
  have lt: "?p < length (children ?st1)" by simp
  have cmd: "child_command (children ?st1 ! ?p) = command" by simp
  have pr: "promise (children ?s1 ! ?p) =
      (if code = Some 0 then Resolved
       else Rejected (Error (command @ '' exited with code '' @ code_text code)))"
    using promise_handle_Close [OF lt, of code ?p] pend cmd by simp
  then have settled: "promise (children ?s1 ! ?p) \<noteq> Pending" by simp
  have aw: "await (\<lambda>s'. promise (children s' ! ?p) \<noteq> Pending) (Close ?p code # evs) ?st1 = (?s1, Some evs)"
    using pend await_settled [of "\<lambda>s'. promise (children s' ! ?p) \<noteq> Pending" ?s1 evs, OF settled]
    by simp
  show "run_sequential (command # commands) opts h (Close ?p code # evs) s =
     (let s1 = ?s1
      in if code = Some 0 then run_sequential commands opts h evs s1
         else (s1, Some (Inl (Error (command @ '' exited with code ''
                @ (case code of None \<Rightarrow> ''null'' | Some n \<Rightarrow> string_of_int n))), evs)))"
    unfolding run_sequential_Cons [OF aw] Let_def using pr
    by (cases "code = Some 0") (simp_all add: code_text_def)
qed

lemma length_spawned_rev [simp]: "length (spawned (rev tr)) = length (spawned tr)"
  by (induction tr rule: spawned.induct) simp_all

lemma one_at_a_time_Nil [simp]: "one_at_a_time []"
  by (simp add: one_at_a_time_def)

lemma one_at_a_time_snoc:
  "one_at_a_time (tr @ [x]) \<longleftrightarrow>
     (case x of
        Spawn sp \<Rightarrow> list_all (\<lambda>i. Received (Close i (Some 0)) \<in> set tr) [0 ..< length (spawned tr)]
                   \<and> one_at_a_time tr
      | _ \<Rightarrow> one_at_a_time tr)"
  by (cases x) (simp_all add: one_at_a_time_def)

lemma one_at_a_time_append:
  "spawned ext = [] \<Longrightarrow> one_at_a_time (tr @ ext) \<longleftrightarrow> one_at_a_time tr"
proof (induction ext rule: rev_induct)
  case Nil
  then show ?case by simp
next
  case (snoc x ext)
  then have "spawned ext = []" and x: "spawned [x] = []" by simp_all
  with snoc.IH have IH: "one_at_a_time (tr @ ext) \<longleftrightarrow> one_at_a_time tr" by simp
  from x have "one_at_a_time ((tr @ ext) @ [x]) \<longleftrightarrow> one_at_a_time (tr @ ext)"
    unfolding one_at_a_time_snoc by (cases x) simp_all
  with IH show ?case by simp
qed

lemma trace_handle:
  "trace (handle ev st) =
     trace st @
     (case ev of
        Data i stream chunk \<Rightarrow>
          if i < length (children st) \<and> child_parallel (children st ! i)
          then Received ev #
               (if getPrimaryCommand st = Some (child_command (children st ! i))
                then [Write (child_command (children st ! i)) stream chunk] else [])
          else []
      | Close i code \<Rightarrow>
          if i < length (children st)
          then Received ev #
               (case next_primary i st of
                  None \<Rightarrow> []
                | Some p \<Rightarrow> map (\<lambda>(stream, text). Write p stream text) (buffered st p))
          else []
      | Failed i m \<Rightarrow> if i < length (children st) then [Received ev] else [])"
proof (cases ev)
  case (Data i stream chunk)
  then show ?thesis by (simp add: handle_def)
next
  case (Close i code)
  have "next_primary i (emit (Received ev) st) = next_primary i st"
    by (simp add: next_primary_def getPrimaryCommand_def)
  with Close show ?thesis
    by (cases "next_primary i st") (simp_all add: handle_def trace_on_close)
next
  case (Failed i m)
  then show ?thesis by (simp add: handle_def)
qed

lemma buffers_handle_quiet:
  assumes "buffers st = []" and "\<forall>i<length (children st). \<not> child_parallel (children st ! i)"
  shows "buffers (handle ev st) = []"
proof (cases ev)
  case (Data i stream chunk)
  with assms show ?thesis by (auto simp: handle_def)
next
  case (Close i code)
  with assms show ?thesis
    by (cases "next_primary i (emit (Received ev) st)") (simp_all add: handle_def buffers_on_close)
next
  case (Failed i m)
  with assms show ?thesis by (simp add: handle_def)
qed

lemma buffered_empty: "buffers st = [] \<Longrightarrow> buffered st c = []"
  by (simp add: buffered_def)

lemma seq_inv_handle:
  assumes "seq_inv st"
  shows "seq_inv (handle ev st)"
proof -
  from assms have one: "one_at_a_time (trace st)"
    and len: "length (spawned (trace st)) = length (children st)"
    and res: "\<And>i. i < length (children st) \<Longrightarrow> promise (children st ! i) = Resolved \<Longrightarrow>
        Received (Close i (Some 0)) \<in> set (trace st)"
    and plain: "\<And>i es m. i < length (children st) \<Longrightarrow> promise (children st ! i) \<noteq> Rejected (AggregateError es m)"
    and buf: "buffers st = []"
    and np: "\<forall>i<length (children st). \<not> child_parallel (children st ! i)"
    and nw: "\<And>c. writes_of c (trace st) = []"
    by (auto simp: seq_inv_def)
  obtain ext where tr: "trace (handle ev st) = trace st @ ext"
    and ext: "ext = (case ev of
        Data i stream chunk \<Rightarrow> []
      | Close i code \<Rightarrow> if i < length (children st) then [Received ev] else []
      | Failed i m \<Rightarrow> if i < length (children st) then [Received ev] else [])"
    using np by (cases ev) (auto simp: trace_handle buffered_empty [OF buf] split: option.splits)
  have sp: "spawned ext = []" unfolding ext by (cases ev) simp_all
  have wr: "writes_of c ext = []" for c unfolding ext by (cases ev) simp_all
  have 1: "one_at_a_time (trace (handle ev st))"
    unfolding tr using one one_at_a_time_append [OF sp] by simp
  have 2: "length (spawned (trace (handle ev st))) = length (children (handle ev st))"
    using len by simp
  have 3: "Received (Close i (Some 0)) \<in> set (trace (handle ev st))"
    if "i < length (children (handle ev st))" "promise (children (handle ev st) ! i) = Resolved" for i
  proof (cases "promise (children st ! i) = Resolved")
    case True
    with that res [of i] show ?thesis unfolding tr by simp
  next
    case False
    with that have "ev = Close i (Some 0)"
      by (cases ev) (auto simp: promise_handle split: if_splits)
    with that show ?thesis unfolding tr ext by simp
  qed
  have 4: "promise (children (handle ev st) ! i) \<noteq> Rejected (AggregateError es m)"
    if "i < length (children (handle ev st))" for i es m
    using that plain [of i es m] by (cases ev) (auto simp: promise_handle)
  have 5: "buffers (handle ev st) = []"
    by (rule buffers_handle_quiet [OF buf np])
  have 6: "\<forall>i<length (children (handle ev st)). \<not> child_parallel (children (handle ev st) ! i)"
  proof -
    have "map child_parallel (children (handle ev st)) = map child_parallel (children st)" by simp
    then have "child_parallel (children (handle ev st) ! i) = child_parallel (children st ! i)"
      if "i < length (children st)" for i
      using that by (metis handle_children(1) nth_map)
    with np show ?thesis by simp
  qed
  have 7: "writes_of c (trace (handle ev st)) = []" for c
    unfolding tr using nw wr by simp
  from 1 2 3 4 5 6 7 show ?thesis unfolding seq_inv_def by blast
qed

lemma seq_inv_exec: "seq_inv st \<Longrightarrow> seq_inv (fold handle evs st)"
  by (induction evs arbitrary: st) (simp_all add: seq_inv_handle)

lemma settled_stable:
  "promise (children st ! j) \<noteq> Pending \<Longrightarrow>
   promise (children (handle ev st) ! j) = promise (children st ! j)"
  by (cases ev) (auto simp: promise_handle)

lemma settled_stable_exec:
  "promise (children st ! j) \<noteq> Pending \<Longrightarrow>
   promise (children (fold handle evs st) ! j) = promise (children st ! j)"
proof (induction evs arbitrary: st)
  case Nil
  then show ?case by simp
next
  case (Cons ev evs)
  from Cons.prems have "promise (children (handle ev st) ! j) = promise (children st ! j)"
    by (rule settled_stable)
  with Cons show ?case by simp
qed

lemma seq_inv_runCommand:
  assumes inv: "seq_inv s" and res: "list_all (\<lambda>ch. promise ch = Resolved) (children s)"
    and np: "\<not> parallel opts"
  shows "seq_inv (fst (runCommand c opts h s))"
proof -
  let ?st1 = "fst (runCommand c opts h s)"
  from inv have one: "one_at_a_time (trace s)"
    and len: "length (spawned (trace s)) = length (children s)"
    and rec: "\<And>i. i < length (children s) \<Longrightarrow> promise (children s ! i) = Resolved \<Longrightarrow>
        Received (Close i (Some 0)) \<in> set (trace s)"
    and plain: "\<And>i es m. i < length (children s) \<Longrightarrow> promise (children s ! i) \<noteq> Rejected (AggregateError es m)"
    and buf: "buffers s = []"
    and npar: "\<And>i. i < length (children s) \<Longrightarrow> \<not> child_parallel (children s ! i)"
    and nw: "\<And>c. writes_of c (trace s) = []"
    by (auto simp: seq_inv_def)
  have closed: "list_all (\<lambda>i. Received (Close i (Some 0)) \<in> set (trace s)) [0 ..< length (spawned (trace s))]"
    using res rec len by (simp add: list_all_length)
  have 1: "one_at_a_time (trace ?st1)"
    using one closed by (simp add: one_at_a_time_snoc)
  have 2: "length (spawned (trace ?st1)) = length (children ?st1)"
    using len by simp
  have 3: "Received (Close i (Some 0)) \<in> set (trace ?st1)"
    if "i < length (children ?st1)" "promise (children ?st1 ! i) = Resolved" for i
    using that rec [of i] by (cases "i < length (children s)") (simp_all add: nth_append)
  have 4: "promise (children ?st1 ! i) \<noteq> Rejected (AggregateError es m)"
    if "i < length (children ?st1)" for i es m
    using that plain [of i es m] by (cases "i < length (children s)") (simp_all add: nth_append)
  have 5: "buffers ?st1 = []" using buf by simp
  have 6: "\<not> child_parallel (children ?st1 ! i)" if "i < length (children ?st1)" for i
    using that npar [of i] np by (cases "i < length (children s)") (simp_all add: nth_append)
  have 7: "writes_of c' (trace ?st1) = []" for c'
    using nw by simp
  from 1 2 3 4 5 6 7 show ?thesis unfolding seq_inv_def by blast
qed

lemma awaited_child:
  assumes st2: "st2 = fold handle pre st1"
    and ch1: "children st1 = children s @ [ch]"
    and res: "list_all (\<lambda>ch. promise ch = Resolved) (children s)"
  shows "length (children st2) = Suc (length (children s))"
    and "children st2 \<noteq> []"
    and "last (children st2) = children st2 ! length (children s)"
    and "list_all (\<lambda>ch. promise ch = Resolved) (butlast (children st2))"
proof -
  show len: "length (children st2) = Suc (length (children s))"
    unfolding st2 by (simp add: ch1)
  then show ne: "children st2 \<noteq> []" by auto
  show "last (children st2) = children st2 ! length (children s)"
    using len ne by (simp add: last_conv_nth)
  have "promise (children st2 ! j) = Resolved" if "j < length (children s)" for j
  proof -
    from that res have "promise (children st1 ! j) = Resolved"
      by (simp add: ch1 nth_append list_all_length)
    then show ?thesis
      unfolding st2 using settled_stable_exec [of st1 j pre] by simp
  qed
  then show "list_all (\<lambda>ch. promise ch = Resolved) (butlast (children st2))"
    using len by (simp add: list_all_length nth_butlast)
qed

lemma run_sequential_shape:
  assumes "run_sequential cmds opts h evs s = (st, r)"
    and "seq_inv s"
    and "list_all (\<lambda>ch. promise ch = Resolved) (children s)"
  shows "seq_inv st \<and>
     length (children s) \<le> length (children st) \<and>
     length (children st) \<le> length (children s) + length cmds \<and>
     spawned (trace st) = spawned (trace s) @
        map (npm_run False (silent opts) h) (take (length (children st) - length (children s)) cmds) \<and>
     (case r of
        None \<Rightarrow>
          children st \<noteq> [] \<and> promise (last (children st)) = Pending \<and>
          list_all (\<lambda>ch. promise ch = Resolved) (butlast (children st))
      | Some (Inl e, rest) \<Rightarrow>
          children st \<noteq> [] \<and> promise (last (children st)) = Rejected e \<and>
          list_all (\<lambda>ch. promise ch = Resolved) (butlast (children st))
      | Some (Inr u, rest) \<Rightarrow>
          length (children st) = length (children s) + length cmds \<and>
          list_all (\<lambda>ch. promise ch = Resolved) (children st))"
  using assms
proof (induction cmds arbitrary: s evs)
  case Nil
  then show ?case by auto
next
  case (Cons c cs)
  let ?o = "opts\<lparr>parallel := False\<rparr>"
  let ?st1 = "fst (runCommand c ?o h s)"
  let ?p = "length (children s)"
  have inv1: "seq_inv ?st1"
    by (rule seq_inv_runCommand [OF Cons.prems(2,3)]) simp
  have ch1: "children ?st1 = children s @ [\<lparr>child_command = c, child_parallel = parallel ?o, collect = False, promise = Pending\<rparr>]"
    by simp
  have sp1: "spawned (trace ?st1) = spawned (trace s) @ [npm_run False (silent opts) h c]"
    by simp
  obtain st2 r' where aw: "await (\<lambda>s'. promise (children s' ! ?p) \<noteq> Pending) evs ?st1 = (st2, r')"
    by (cases "await (\<lambda>s'. promise (children s' ! ?p) \<noteq> Pending) evs ?st1")
  note unfold = run_sequential_Cons [OF aw, of cs]
  show ?case
  proof (cases r')
    case None
    with unfold Cons.prems(1) have st: "st = st2" and r: "r = None" by simp_all
    from await_None [OF aw [unfolded None]] have st2: "st2 = fold handle evs ?st1"
      and pend: "promise (children st2 ! ?p) = Pending" by auto
    note ac = awaited_child [OF st2 ch1 Cons.prems(3)]
    have "seq_inv st2" unfolding st2 by (rule seq_inv_exec [OF inv1])
    moreover have "spawned (trace st2) = spawned (trace s) @ map (npm_run False (silent opts) h) (take 1 (c # cs))"
      unfolding st2 using sp1 by simp
    ultimately show ?thesis
      unfolding st r using ac pend by simp
  next
    case (Some rest)
    from await_Some [OF aw [unfolded Some]] obtain pre where "evs = pre @ rest"
      and st2: "st2 = fold handle pre ?st1"
      and settled: "promise (children st2 ! ?p) \<noteq> Pending" by blast
    note ac = awaited_child [OF st2 ch1 Cons.prems(3)]
    have inv2: "seq_inv st2" unfolding st2 by (rule seq_inv_exec [OF inv1])
    have sp2: "spawned (trace st2) = spawned (trace s) @ [npm_run False (silent opts) h c]"
      unfolding st2 using sp1 by simp
    show ?thesis
    proof (cases "promise (children st2 ! ?p)")
      case Pending
      with settled show ?thesis by simp
    next
      case (Rejected e)
      with unfold Some Cons.prems(1) have st: "st = st2" and r: "r = Some (Inl e, rest)" by simp_all
      show ?thesis
        unfolding st r using ac inv2 sp2 Rejected by simp
    next
      case Resolved
      with unfold Some Cons.prems(1) have rest: "run_sequential cs opts h rest st2 = (st, r)" by simp
      have all2: "list_all (\<lambda>ch. promise ch = Resolved) (children st2)"
      proof -
        have "children st2 = butlast (children st2) @ [children st2 ! ?p]"
          using ac(2,3) by (metis append_butlast_last_id)
        then have "list_all (\<lambda>ch. promise ch = Resolved) (children st2)
            \<longleftrightarrow> list_all (\<lambda>ch. promise ch = Resolved) (butlast (children st2) @ [children st2 ! ?p])"
          by simp
        with ac(4) Resolved show ?thesis by simp
      qed
      from Cons.IH [OF rest inv2 all2] have
        a: "seq_inv st" and b: "length (children st2) \<le> length (children st)"
        and c: "length (children st) \<le> length (children st2) + length cs"
        and d: "spawned (trace st) = spawned (trace st2) @
            map (npm_run False (silent opts) h) (take (length (children st) - length (children st2)) cs)"
        and e: "(case r of
            None \<Rightarrow>
              children st \<noteq> [] \<and> promise (last (children st)) = Pending \<and>
              list_all (\<lambda>ch. promise ch = Resolved) (butlast (children st))
          | Some (Inl e, rest) \<Rightarrow>
              children st \<noteq> [] \<and> promise (last (children st)) = Rejected e \<and>
              list_all (\<lambda>ch. promise ch = Resolved) (butlast (children st))
          | Some (Inr u, rest) \<Rightarrow>
              length (children st) = length (children st2) + length cs \<and>
              list_all (\<lambda>ch. promise ch = Resolved) (children st))"
        by blast+
      from b ac(1) obtain n where n: "length (children st) - ?p = Suc n"
        and n': "length (children st) - length (children st2) = n"
        by (cases "length (children st) - ?p") auto
      have d': "spawned (trace st) = spawned (trace s) @
          map (npm_run False (silent opts) h) (take (length (children st) - ?p) (c # cs))"
        unfolding n using d sp2 n' by simp
      have e': "(case r of
            None \<Rightarrow>
              children st \<noteq> [] \<and> promise (last (children st)) = Pending \<and>
              list_all (\<lambda>ch. promise ch = Resolved) (butlast (children st))
          | Some (Inl e, rest) \<Rightarrow>
              children st \<noteq> [] \<and> promise (last (children st)) = Rejected e \<and>
              list_all (\<lambda>ch. promise ch = Resolved) (butlast (children st))
          | Some (Inr u, rest) \<Rightarrow>
              length (children st) = ?p + length (c # cs) \<and>
              list_all (\<lambda>ch. promise ch = Resolved) (children st))"
        using e ac(1) by (auto split: option.splits sum.splits)
      from a b c d' e' ac(1) show ?thesis by simp
    qed
  qed
qed

lemma seq_inv_init [simp]: "seq_inv init"
  by (simp add: seq_inv_def init_def)

lemma run_sequential_parallel_flag:
  "run_sequential cmds (opts\<lparr>parallel := b\<rparr>) h evs s = run_sequential cmds opts h evs s"
  by (induction cmds arbitrary: evs s)
     (simp_all split: prod.splits option.splits promise.splits del: await.simps)

lemma run_parallel_spawned:
  assumes "run_parallel cmds opts h evs init = (st, r)"
  shows "spawned (trace st) = map (npm_run (parallel opts) (silent opts) h) cmds"
proof -
  have sp1: "spawned (trace (fst (start_all cmds opts h [] (init\<lparr>errors := []\<rparr>))))
      = map (npm_run (parallel opts) (silent opts) h) cmds"
    by (simp add: start_all_fields init_def)
  show ?thesis
  proof (cases r)
    case None
    with assms obtain st1 ps where "start_all cmds opts h [] (init\<lparr>errors := []\<rparr>) = (st1, ps)"
      and "st = fold handle evs st1"
      by (auto elim: run_parallel_None)
    with sp1 show ?thesis by simp
  next
    case (Some p)
    obtain result rest where "p = (result, rest)" by (cases p)
    with assms Some obtain st1 ps handled where "start_all cmds opts h [] (init\<lparr>errors := []\<rparr>) = (st1, ps)"
      and "st = flushAll (fold handle handled st1)"
      by (auto elim: run_parallel_Some)
    with sp1 show ?thesis by simp
  qed
qed




lemma npm_run_sequential [simp]:
  "spawn_stdio (npm_run False sil h c) = [Inherit, Inherit, Inherit]"
  "spawn_env (npm_run False sil h c) = env h"
  "spawn_env (npm_run True sil h c) = force_color h"
  "spawn_stdio (npm_run True sil h c) = [Inherit, Pipe, Pipe]"
  by (simp_all add: npm_run_def)

lemma string_of_small_int:
  "string_of_int 0 = ''0''" "string_of_int 1 = ''1''" "string_of_int 2 = ''2''" "string_of_int 3 = ''3''"
  by code_simp+

lemma color_level_text:
  "string_of_int (getColorLevel h) \<in> set [''0'', ''1'', ''2'', ''3'']"
proof -
  have "getColorLevel h = 0 \<or> getColorLevel h = 1 \<or> getColorLevel h = 2 \<or> getColorLevel h = 3"
    by (simp add: getColorLevel_def Let_def)
  then show ?thesis by (auto simp: string_of_small_int)
qed

lemma map_of_force_color:
  "name \<noteq> ''FORCE_COLOR'' \<Longrightarrow> map_of (force_color h) name = map_of (env h) name"
  by (simp add: force_color_def map_add_def split: option.splits)

text \<open>
  C7: with the parallel flag set and a resolved list of at most one command, \<open>run\<close> does
  what it does without the flag: the sequential loop. The child, if any, inherits all three
  standard streams and gets the environment of the process unchanged; no child has \<open>data\<close>
  listeners, nothing is buffered, and nothing is written on behalf of a command.
\<close>

theorem C7_single_command_not_parallel:
  "parallel opts \<and> resolveCommands (packageJSON h) patterns = Inr commands \<and> length commands \<le> 1 \<and>
   run patterns opts h evs init = (st, r) \<longrightarrow>
     run patterns (opts\<lparr>parallel := False\<rparr>) h evs init = (st, r) \<and>
     length (spawned (trace st)) \<le> 1 \<and>
     list_all (\<lambda>sp. spawn_stdio sp = [Inherit, Inherit, Inherit] \<and> spawn_env sp = env h)
       (spawned (trace st)) \<and>
     list_all (\<lambda>ch. \<not> child_parallel ch) (children st) \<and>
     buffers st = [] \<and>
     (\<forall>c. writes_of c (trace st) = [])"
proof
  assume a: "parallel opts \<and> resolveCommands (packageJSON h) patterns = Inr commands \<and> length commands \<le> 1 \<and>
   run patterns opts h evs init = (st, r)"
  then have seq: "run_sequential commands opts h evs init = (st, r)"
    by (auto simp: run_def)
  then have "run patterns (opts\<lparr>parallel := False\<rparr>) h evs init = (st, r)"
    using a by (simp add: run_def run_sequential_parallel_flag)
  moreover from run_sequential_shape [OF seq seq_inv_init] have inv: "seq_inv st"
    and len: "length (children st) \<le> length commands"
    and sp: "spawned (trace st) = map (npm_run False (silent opts) h) (take (length (children st)) commands)"
    by (simp_all add: init_def)
  from sp len a have "length (spawned (trace st)) \<le> 1" by simp
  moreover have "list_all (\<lambda>sp. spawn_stdio sp = [Inherit, Inherit, Inherit] \<and> spawn_env sp = env h)
       (spawned (trace st))"
    unfolding sp by (simp add: list_all_iff)
  moreover have "list_all (\<lambda>ch. \<not> child_parallel ch) (children st)"
    using inv by (simp add: seq_inv_def list_all_length)
  moreover have "buffers st = []" "\<forall>c. writes_of c (trace st) = []"
    using inv by (simp_all add: seq_inv_def)
  ultimately show "run patterns (opts\<lparr>parallel := False\<rparr>) h evs init = (st, r) \<and>
     length (spawned (trace st)) \<le> 1 \<and>
     list_all (\<lambda>sp. spawn_stdio sp = [Inherit, Inherit, Inherit] \<and> spawn_env sp = env h)
       (spawned (trace st)) \<and>
     list_all (\<lambda>ch. \<not> child_parallel ch) (children st) \<and>
     buffers st = [] \<and>
     (\<forall>c. writes_of c (trace st) = [])"
    by blast
qed

lemma example_run_single:
  "run [''build''] \<lparr>parallel = True, silent = False\<rparr> example_host
     [Data 0 Stdout ''x'', Close 0 (Some 0)] init
   = (\<lparr>runningCommands = [], buffers = [],
       children = [\<lparr>child_command = ''build'', child_parallel = False, collect = False, promise = Resolved\<rparr>],
       errors = [],
       trace = [Spawn \<lparr>spawn_file = ''npm'', spawn_args = [''run'', ''build''],
                       spawn_stdio = [Inherit, Inherit, Inherit], spawn_env = [(''PATH'', ''/usr/bin'')]\<rparr>,
                Received (Close 0 (Some 0))]\<rparr>,
      Some (Inr (), []))"
  by code_simp

theorem C7_single_command_not_parallel_witness:
  "parallel \<lparr>parallel = True, silent = False\<rparr> \<and>
   resolveCommands (packageJSON example_host) [''build''] = Inr [''build''] \<and>
   length [''build''] \<le> 1 \<and>
   run [''build''] (\<lparr>parallel = True, silent = False\<rparr>\<lparr>parallel := False\<rparr>) example_host
     [Data 0 Stdout ''x'', Close 0 (Some 0)] init
   = run [''build''] \<lparr>parallel = True, silent = False\<rparr> example_host
     [Data 0 Stdout ''x'', Close 0 (Some 0)] init \<and>
   spawned (trace (fst (run [''build''] \<lparr>parallel = True, silent = False\<rparr> example_host
     [Data 0 Stdout ''x'', Close 0 (Some 0)] init)))
   = [\<lparr>spawn_file = ''npm'', spawn_args = [''run'', ''build''],
       spawn_stdio = [Inherit, Inherit, Inherit], spawn_env = env example_host\<rparr>]"
proof -
  let ?evs = "[Data 0 Stdout ''x'', Close 0 (Some 0)]"
  let ?r = "run [''build''] \<lparr>parallel = True, silent = False\<rparr> example_host ?evs init"
  have res: "resolveCommands (packageJSON example_host) [''build''] = Inr [''build'']"
    by code_simp
  have hyps: "parallel \<lparr>parallel = True, silent = False\<rparr> \<and>
      resolveCommands (packageJSON example_host) [''build''] = Inr [''build''] \<and>
      length [''build''] \<le> 1 \<and> ?r = (fst ?r, snd ?r)"
    using res by simp
  from C7_single_command_not_parallel [where opts = "\<lparr>parallel = True, silent = False\<rparr>" and h = example_host
        and patterns = "[''build'']" and commands = "[''build'']"
        and evs = ?evs and st = "fst ?r" and r = "snd ?r"] hyps
  have "run [''build''] (\<lparr>parallel = True, silent = False\<rparr>\<lparr>parallel := False\<rparr>) example_host ?evs init = ?r"
    by simp
  moreover have "spawned (trace (fst ?r)) = [\<lparr>spawn_file = ''npm'', spawn_args = [''run'', ''build''],
       spawn_stdio = [Inherit, Inherit, Inherit], spawn_env = env example_host\<rparr>]"
    unfolding example_run_single by (simp add: example_host_def)
  ultimately show ?thesis using hyps by blast
qed

text \<open>
  C9: every child is spawned with the environment of the process, except that in parallel
  mode (the parallel flag with more than one resolved command) \<open>FORCE_COLOR\<close> is added,
  with the color level as its value, one of \<open>0\<close>, \<open>1\<close>, \<open>2\<close>, \<open>3\<close>, when the process
  environment does not set it. Every other variable is passed on as it is, a \<open>FORCE_COLOR\<close>
  of the caller is kept, and in sequential mode the environment is the process's own.
\<close>

theorem C9_child_environment:
  "resolveCommands (packageJSON h) patterns = Inr commands \<and> run patterns opts h evs init = (st, r) \<longrightarrow>
     list_all
       (\<lambda>sp.
          spawn_env sp =
            (if parallel opts \<and> 1 < length commands then
               (case map_of (env h) ''FORCE_COLOR'' of
                  None \<Rightarrow> env h @ [(''FORCE_COLOR'', string_of_int (getColorLevel h))]
                | Some v \<Rightarrow> env h)
             else env h) \<and>
          (\<forall>name. name \<noteq> ''FORCE_COLOR'' \<longrightarrow> map_of (spawn_env sp) name = map_of (env h) name))
       (spawned (trace st)) \<and>
     string_of_int (getColorLevel h) \<in> set [''0'', ''1'', ''2'', ''3'']"
proof
  assume a: "resolveCommands (packageJSON h) patterns = Inr commands \<and> run patterns opts h evs init = (st, r)"
  let ?P = "\<lambda>sp. spawn_env sp =
            (if parallel opts \<and> 1 < length commands then
               (case map_of (env h) ''FORCE_COLOR'' of
                  None \<Rightarrow> env h @ [(''FORCE_COLOR'', string_of_int (getColorLevel h))]
                | Some v \<Rightarrow> env h)
             else env h) \<and>
          (\<forall>name. name \<noteq> ''FORCE_COLOR'' \<longrightarrow> map_of (spawn_env sp) name = map_of (env h) name)"
  have "list_all ?P (spawned (trace st))"
  proof (cases "parallel opts \<and> 1 < length commands")
    case True
    with a have "run_parallel commands opts h evs init = (st, r)" by (auto simp: run_def)
    from run_parallel_spawned [OF this] True
    have sp: "spawned (trace st) = map (npm_run True (silent opts) h) commands" by simp
    have "spawn_env (npm_run True (silent opts) h c) =
        (case map_of (env h) ''FORCE_COLOR'' of
           None \<Rightarrow> env h @ [(''FORCE_COLOR'', string_of_int (getColorLevel h))]
         | Some v \<Rightarrow> env h)" for c
      by (simp add: force_color_def)
    moreover have "\<forall>name. name \<noteq> ''FORCE_COLOR'' \<longrightarrow>
        map_of (spawn_env (npm_run True (silent opts) h c)) name = map_of (env h) name" for c
      by (simp add: map_of_force_color)
    ultimately show ?thesis
      unfolding sp using True by (simp add: list_all_iff del: npm_run_sequential)
  next
    case False
    with a have seq: "run_sequential commands opts h evs init = (st, r)" by (auto simp: run_def)
    from run_sequential_shape [OF seq seq_inv_init]
    have sp: "spawned (trace st) = map (npm_run False (silent opts) h) (take (length (children st)) commands)"
      by (simp add: init_def)
    show ?thesis
      unfolding sp using False by (auto simp: list_all_iff)
  qed
  with color_level_text show "list_all ?P (spawned (trace st)) \<and>
     string_of_int (getColorLevel h) \<in> set [''0'', ''1'', ''2'', ''3'']"
    by blast
qed

lemma example_color_level: "string_of_int (getColorLevel example_host) = ''2''"
  by code_simp

theorem C9_child_environment_witness:
  "resolveCommands (packageJSON example_host) [''clean'', ''build''] = Inr [''clean'', ''build''] \<and>
   list_all (\<lambda>sp. spawn_env sp = [(''PATH'', ''/usr/bin''), (''FORCE_COLOR'', ''2'')])
     (spawned (trace (fst (run [''clean'', ''build''] \<lparr>parallel = True, silent = False\<rparr> example_host
        [Close 0 (Some 0), Close 1 (Some 0)] init))))"
proof -
  let ?evs = "[Close 0 (Some 0), Close 1 (Some 0)]"
  let ?r = "run [''clean'', ''build''] \<lparr>parallel = True, silent = False\<rparr> example_host ?evs init"
  have res: "resolveCommands (packageJSON example_host) [''clean'', ''build''] = Inr [''clean'', ''build'']"
    by code_simp
  have hyps: "resolveCommands (packageJSON example_host) [''clean'', ''build''] = Inr [''clean'', ''build''] \<and>
      ?r = (fst ?r, snd ?r)"
    using res by simp
  have env: "env example_host = [(''PATH'', ''/usr/bin'')]"
    by (simp add: example_host_def)
  from C9_child_environment [where opts = "\<lparr>parallel = True, silent = False\<rparr>" and h = example_host
        and patterns = "[''clean'', ''build'']" and commands = "[''clean'', ''build'']"
        and evs = ?evs and st = "fst ?r" and r = "snd ?r"] hyps
  have "list_all (\<lambda>sp. spawn_env sp = [(''PATH'', ''/usr/bin''), (''FORCE_COLOR'', ''2'')])
     (spawned (trace (fst ?r)))"
    by (simp add: env example_color_level list_all_iff)
  with res show ?thesis by blast
qed

text \<open>
  C8: the code at hand does not look at \<open>npm_execpath\<close>. With the variable absent from the
  environment, \<open>main\<close> spawns \<open>npm run build\<close> all the same and, the child closing with
  code 0, returns exit code 0 with nothing printed.
\<close>

theorem C8_npm_execpath_not_checked:
  "map_of (env example_host) ''npm_execpath'' = None \<and>
   main (Inr (\<lparr>parallel = False, silent = False, arg_help = False, arg_version = False\<rparr>, [''build'']))
     example_host [Close 0 (Some 0)] init
   = (\<lparr>runningCommands = [], buffers = [],
       children = [\<lparr>child_command = ''build'', child_parallel = False, collect = False, promise = Resolved\<rparr>],
       errors = [],
       trace = [Spawn \<lparr>spawn_file = ''npm'', spawn_args = [''run'', ''build''],
                       spawn_stdio = [Inherit, Inherit, Inherit], spawn_env = [(''PATH'', ''/usr/bin'')]\<rparr>,
                Received (Close 0 (Some 0))]\<rparr>,
      Some (0, []))"
  by code_simp

text \<open>
  C6: for every registry \<open>R\<close> and every pattern \<open>P\<close> without an asterisk, resolving \<open>P\<close>
  against \<open>R\<close> yields exactly the one-element list \<open>[P]\<close>, whether or not \<open>P\<close> is a name
  of \<open>R\<close>. Resolution does not reject an absent name: \<open>run\<close> goes on to spawn \<open>npm run P\<close>,
  and only that child can fail.
\<close>

theorem C6_literal_pass_through:
  "CHR ''*'' \<notin> set P \<longrightarrow>
     resolveCommands (Inr R) [P] = Inr [P] \<and>
     (packageJSON h = Inr R \<longrightarrow>
        spawned (trace (fst (run [P] opts h evs init))) = [npm_run False (silent opts) h P])"
proof (intro impI conjI)
  assume P: "CHR ''*'' \<notin> set P"
  then show res: "resolveCommands (Inr R) [P] = Inr [P]"
    by (simp add: resolveCommands_def resolveCommand_def)
  assume R: "packageJSON h = Inr R"
  obtain st r where run: "run [P] opts h evs init = (st, r)"
    by (cases "run [P] opts h evs init")
  with res R have seq: "run_sequential [P] opts h evs init = (st, r)"
    by (simp add: run_def)
  from run_sequential_shape [OF seq seq_inv_init]
  have len: "length (children st) \<le> 1"
    and sp: "spawned (trace st) = map (npm_run False (silent opts) h) (take (length (children st)) [P])"
    and r: "(case r of
        None \<Rightarrow> children st \<noteq> []
      | Some (Inl e, rest) \<Rightarrow> children st \<noteq> []
      | Some (Inr u, rest) \<Rightarrow> length (children st) = 1)"
    by (auto simp: init_def split: option.splits sum.splits)
  from r len have "length (children st) = 1"
    by (cases "children st") (auto split: option.splits sum.splits)
  with sp run show "spawned (trace (fst (run [P] opts h evs init))) = [npm_run False (silent opts) h P]"
    by simp
qed

theorem C6_literal_pass_through_witness:
  "CHR ''*'' \<notin> set ''deploy'' \<and>
   resolveCommands (Inr [''clean'', ''build'', ''build:compile'']) [''deploy''] = Inr [''deploy''] \<and>
   packageJSON (example_host\<lparr>packageJSON := Inr [''clean'', ''build'', ''build:compile'']\<rparr>)
     = Inr [''clean'', ''build'', ''build:compile''] \<and>
   spawned (trace (fst (run [''deploy''] \<lparr>parallel = False, silent = True\<rparr>
       (example_host\<lparr>packageJSON := Inr [''clean'', ''build'', ''build:compile'']\<rparr>) [Close 0 (Some 1)] init)))
     = [\<lparr>spawn_file = ''npm'', spawn_args = [''run'', ''-s'', ''deploy''],
         spawn_stdio = [Inherit, Inherit, Inherit], spawn_env = [(''PATH'', ''/usr/bin'')]\<rparr>]"
  using C6_literal_pass_through [where P = "''deploy''" and R = "[''clean'', ''build'', ''build:compile'']"
      and h = "example_host\<lparr>packageJSON := Inr [''clean'', ''build'', ''build:compile'']\<rparr>"
      and opts = "\<lparr>parallel = False, silent = True\<rparr>" and evs = "[Close 0 (Some 1)]"]
  by (simp add: npm_run_def example_host_def)


lemma closed_in_Nil [simp]: "\<not> closed_in [] i"
  by (simp add: closed_in_def)



lemma children_exec [simp]:
  "map child_command (children (fold handle evs st)) = map child_command (children st)"
  "map child_parallel (children (fold handle evs st)) = map child_parallel (children st)"
  by (induction evs arbitrary: st) simp_all














text \<open>
  C10, as stated, fails for a \<open>close\<close> that follows an \<open>error\<close> event of the same child, as
  when the child cannot be spawned: the \<open>error\<close> event has rejected the promise, a settled
  promise stays as it is, and so after the \<open>close\<close> with code -2 the rejection still is the
  spawn error, which names neither the command nor the code; it is also what the run surfaces.
\<close>

theorem C10_close_code_counterexample:
  "promise (children (handle (Close 0 (Some (- 2))) (handle (Failed 0 ''spawn npm ENOENT'')
       (fst (start_all [''build''] \<lparr>parallel = True, silent = False\<rparr> example_host [] init)))) ! 0)
     = Rejected (Error ''spawn npm ENOENT'') \<and>
   errors (handle (Close 0 (Some (- 2))) (handle (Failed 0 ''spawn npm ENOENT'')
       (fst (start_all [''build''] \<lparr>parallel = True, silent = False\<rparr> example_host [] init))))
     = [Error ''spawn npm ENOENT''] \<and>
   snd (run [''clean'', ''build''] \<lparr>parallel = True, silent = False\<rparr> example_host
       [Failed 0 ''spawn npm ENOENT'', Close 0 (Some (- 2)), Close 1 (Some 0)] init)
     = Some (Inl (Error ''spawn npm ENOENT''), [])"
  by code_simp

lemma example_code_text: "string_of_int 127 = ''127''"
  by code_simp

theorem C10_close_code_witness:
  "0 < length (children (fst (start_all [''build''] \<lparr>parallel = True, silent = False\<rparr> example_host [] init))) \<and>
   promise (children (fst (start_all [''build''] \<lparr>parallel = True, silent = False\<rparr> example_host [] init)) ! 0)
     = Pending \<and>
   promise (children (handle (Close 0 None)
       (fst (start_all [''build''] \<lparr>parallel = True, silent = False\<rparr> example_host [] init))) ! 0)
     = Rejected (Error ''build exited with code null'') \<and>
   errors (handle (Close 0 None)
       (fst (start_all [''build''] \<lparr>parallel = True, silent = False\<rparr> example_host [] init)))
     = [Error ''build exited with code null''] \<and>
   promise (children (handle (Close 0 (Some 127))
       (fst (start_all [''build''] \<lparr>parallel = True, silent = False\<rparr> example_host [] init))) ! 0)
     = Rejected (Error ''build exited with code 127'') \<and>
   errors (handle (Close 0 (Some 127))
       (fst (start_all [''build''] \<lparr>parallel = True, silent = False\<rparr> example_host [] init)))
     = [Error ''build exited with code 127''] \<and>
   promise (children (handle (Close 0 (Some 0))
       (fst (start_all [''build''] \<lparr>parallel = True, silent = False\<rparr> example_host [] init))) ! 0)
     = Resolved \<and>
   run_sequential [''build'', ''clean''] \<lparr>parallel = False, silent = False\<rparr> example_host
       [Close 0 (Some 127), Close 1 (Some 0)] init
     = (handle (Close 0 (Some 127))
          (fst (runCommand ''build'' \<lparr>parallel = False, silent = False\<rparr> example_host init)),
        Some (Inl (Error ''build exited with code 127''), [Close 1 (Some 0)]))"
proof -
  let ?s0 = "fst (start_all [''build''] \<lparr>parallel = True, silent = False\<rparr> example_host [] init)"
  have ch: "children ?s0 = [\<lparr>child_command = ''build'', child_parallel = True, collect = True, promise = Pending\<rparr>]"
    by (simp add: start_all_fields init_def del: start_all.simps)
  have er: "errors ?s0 = []"
    by (simp add: start_all_fields init_def del: start_all.simps)
  have h: "0 < length (children ?s0) \<and> promise (children ?s0 ! 0) = Pending"
    using ch by simp
  note N = C10_close_code [where i = "0::nat" and st = ?s0 and code = None and ev = "Close 0 None"
      and s = init and command = "''build''" and commands = "[''clean'']"
      and opts = "\<lparr>parallel = False, silent = False\<rparr>" and h = example_host and evs = "[Close 1 (Some 0)]"]
  note C = C10_close_code [where i = "0::nat" and st = ?s0 and code = "Some 127" and ev = "Close 0 (Some 127)"
      and s = init and command = "''build''" and commands = "[''clean'']"
      and opts = "\<lparr>parallel = False, silent = False\<rparr>" and h = example_host and evs = "[Close 1 (Some 0)]"]
  note Z = C10_close_code [where i = "0::nat" and st = ?s0 and code = "Some 0" and ev = "Close 0 (Some 0)"
      and s = init and command = "''build''" and commands = "[''clean'']"
      and opts = "\<lparr>parallel = False, silent = False\<rparr>" and h = example_host and evs = "[Close 1 (Some 0)]"]
  have 1: "promise (children (handle (Close 0 None) ?s0) ! 0) = Rejected (Error ''build exited with code null'')"
    and 2: "errors (handle (Close 0 None) ?s0) = [Error ''build exited with code null'']"
    using N [THEN conjunct1, THEN mp, OF h] ch er by simp_all
  have 3: "promise (children (handle (Close 0 (Some 127)) ?s0) ! 0) = Rejected (Error ''build exited with code 127'')"
    and 4: "errors (handle (Close 0 (Some 127)) ?s0) = [Error ''build exited with code 127'']"
    using C [THEN conjunct1, THEN mp, OF h] ch er by (simp_all add: example_code_text)
  have 5: "promise (children (handle (Close 0 (Some 0)) ?s0) ! 0) = Resolved"
    using Z [THEN conjunct1, THEN mp, OF h] by simp
  have 6: "run_sequential [''build'', ''clean''] \<lparr>parallel = False, silent = False\<rparr> example_host
       [Close 0 (Some 127), Close 1 (Some 0)] init
     = (handle (Close 0 (Some 127))
          (fst (runCommand ''build'' \<lparr>parallel = False, silent = False\<rparr> example_host init)),
        Some (Inl (Error ''build exited with code 127''), [Close 1 (Some 0)]))"
    using C [THEN conjunct2] by (simp add: init_def Let_def example_code_text del: run_sequential.simps)
  from h 1 2 3 4 5 6 show ?thesis by blast
qed

end
